theory Spec2Isabelle
  imports Main "HOL-Library.Word"
begin

unbundle bit_operations_syntax

section \<open>Platform and basic types\<close>

text \<open>
  The embedding fixes the common 64-bit platform: \<^verbatim>\<open>size_t\<close> is a 64-bit word
  (\<^verbatim>\<open>sizeof(size_t) = 8\<close>), \<^verbatim>\<open>uint8_t\<close> an 8-bit word and \<^verbatim>\<open>CHAR_BIT = 8\<close>.
\<close>

type_synonym uint8_t = "8 word"
type_synonym size_t = "64 word"

datatype ByteOrder = MsbFirst | LsbFirst

text \<open>
  The exceptions thrown by the library, with their messages. \<open>static_assert\<close> stands
  for a rejection at compile time (no policy for the type, an oversized \<^verbatim>\<open>Bits\<close> or
  \<^verbatim>\<open>Spare\<close>, a decomposition the compiler cannot resolve); \<open>type_mismatch\<close> for a value
  that does not have the type it is serialized at, which no C++ program can build;
  \<open>indeterminate\<close> for a read of storage whose content the description of the object
  does not give (padding that nothing has written).
\<close>

datatype error =
    invalid_argument string
  | out_of_range string
  | static_assert string
  | type_mismatch
  | indeterminate

text \<open>
  The integral types \<^verbatim>\<open>T\<close> of \<^verbatim>\<open>give<T>\<close> and \<^verbatim>\<open>take<T>\<close>: \<^verbatim>\<open>bool\<close>, and the
  unsigned and signed integers of a given \<^verbatim>\<open>sizeof\<close> (in bytes). A value of such a type
  is modelled as an \<open>int\<close>.
\<close>

datatype integral = Bool | Unsigned nat | Signed nat

fun sizeof :: "integral \<Rightarrow> nat" where
  "sizeof Bool = 1"
| "sizeof (Unsigned n) = n"
| "sizeof (Signed n) = n"

fun is_signed :: "integral \<Rightarrow> bool" where
  "is_signed Bool = False"
| "is_signed (Unsigned n) = False"
| "is_signed (Signed n) = True"

text \<open>\<^verbatim>\<open>bitsize<T>::value = sizeof(T) * CHAR_BIT\<close>.\<close>

definition bitsize :: "integral \<Rightarrow> nat" where
  "bitsize T = sizeof T * 8"

abbreviation size_t_type :: integral where
  "size_t_type \<equiv> Unsigned 8"

text \<open>
  \<^verbatim>\<open>static_cast<T>(v)\<close> of a \<^verbatim>\<open>size_t\<close>: \<^verbatim>\<open>bool\<close> is \<^verbatim>\<open>v != 0\<close>, an unsigned type keeps
  the low bits, a signed type reads them in two's complement.
\<close>

fun static_cast :: "integral \<Rightarrow> size_t \<Rightarrow> int" where
  "static_cast Bool v = (if v \<noteq> 0 then 1 else 0)"
| "static_cast (Unsigned n) v = take_bit (n * 8) (uint v)"
| "static_cast (Signed n) v = signed_take_bit (n * 8 - 1) (uint v)"

text \<open>The values a variable of type \<^verbatim>\<open>T\<close> can hold.\<close>

fun in_range :: "integral \<Rightarrow> int \<Rightarrow> bool" where
  "in_range Bool x = (x = 0 \<or> x = 1)"
| "in_range (Unsigned n) x = (0 \<le> x \<and> x < 2 ^ (n * 8))"
| "in_range (Signed n) x = (- (2 ^ (n * 8 - 1)) \<le> x \<and> x < 2 ^ (n * 8 - 1))"

section \<open>The bit-stream encoder: \<^verbatim>\<open>Serializer\<close>, \<^verbatim>\<open>BytewiseSerializer\<close>, \<^verbatim>\<open>DynamicSerializer\<close>\<close>

text \<open>
  The state of a \<^verbatim>\<open>DynamicSerializer\<close>: the byte order, the accumulator \<^verbatim>\<open>byte_\<close>, the
  count \<^verbatim>\<open>bitsSet_\<close> (both \<^verbatim>\<open>uint8_t\<close>) and the output vector \<^verbatim>\<open>bytes\<close>.
\<close>

record DynamicSerializer =
  ser_byteOrder :: ByteOrder
  ser_byte :: uint8_t
  ser_bitsSet :: uint8_t
  bytes :: "uint8_t list"

text \<open>The constructor: \<^verbatim>\<open>byte_ = 0\<close>, \<^verbatim>\<open>bitsSet_ = 0\<close>, an empty vector.\<close>

definition DynamicSerializer_init :: "ByteOrder \<Rightarrow> DynamicSerializer" where
  "DynamicSerializer_init byteOrder =
     \<lparr>ser_byteOrder = byteOrder, ser_byte = 0, ser_bitsSet = 0, bytes = []\<rparr>"

definition putByte :: "uint8_t \<Rightarrow> DynamicSerializer \<Rightarrow> DynamicSerializer" where
  "putByte b s = s\<lparr>bytes := bytes s @ [b]\<rparr>"

definition flush :: "DynamicSerializer \<Rightarrow> DynamicSerializer" where
  "flush s =
     (if ser_bitsSet s \<noteq> 0
      then (putByte (ser_byte s) s)\<lparr>ser_byte := 0, ser_bitsSet := 0\<rparr>
      else s)"

text \<open>
  One iteration of the \<^verbatim>\<open>while (bits--)\<close> loop of \<^verbatim>\<open>BytewiseSerializer::impl\<close>: test the
  data bit under \<^verbatim>\<open>dataMask\<close>, set \<^verbatim>\<open>byteMask\<close> in the accumulator, emit the accumulator
  when the eighth bit has been set, then shift accumulator and data.
\<close>

definition ser_step :: "size_t \<Rightarrow> DynamicSerializer \<Rightarrow> size_t \<times> DynamicSerializer" where
  "ser_step data s =
     (let msb = (ser_byteOrder s = MsbFirst);
          byteMask = (if msb then 0x01 else 0x80) :: uint8_t;
          dataMask = (if msb then push_bit 63 1 else 1) :: size_t;
          s1 = (if data AND dataMask \<noteq> 0 then s\<lparr>ser_byte := ser_byte s OR byteMask\<rparr> else s);
          s2 = s1\<lparr>ser_bitsSet := ser_bitsSet s1 + 1\<rparr>;
          s3 = (if ser_bitsSet s2 = 8
                then (putByte (ser_byte s2) s2)\<lparr>ser_byte := 0, ser_bitsSet := 0\<rparr>
                else s2)
      in if msb then (push_bit 1 data, s3\<lparr>ser_byte := push_bit 1 (ser_byte s3)\<rparr>)
         else (drop_bit 1 data, s3\<lparr>ser_byte := drop_bit 1 (ser_byte s3)\<rparr>))"

fun ser_loop :: "nat \<Rightarrow> size_t \<Rightarrow> DynamicSerializer \<Rightarrow> DynamicSerializer" where
  "ser_loop 0 data s = s"
| "ser_loop (Suc n) data s = (case ser_step data s of (data', s') \<Rightarrow> ser_loop n data' s')"

text \<open>
  \<^verbatim>\<open>BytewiseSerializer::impl(data, bits)\<close>. \<^verbatim>\<open>give\<close> calls it with \<open>1 \<le> bits \<le> 64\<close> only,
  so the shift distance \<^verbatim>\<open>bitsize<size_t>::value - bits\<close> does not wrap.
\<close>

definition ser_impl :: "size_t \<Rightarrow> nat \<Rightarrow> DynamicSerializer \<Rightarrow> DynamicSerializer" where
  "ser_impl data bits s =
     ser_loop bits
       (if ser_byteOrder s = MsbFirst then push_bit (64 - bits) data else data) s"

text \<open>
  \<^verbatim>\<open>Serializer::give<T>(data, bits)\<close>. The value of type \<^verbatim>\<open>T\<close> is converted to \<^verbatim>\<open>size_t\<close>
  at the call of \<^verbatim>\<open>impl\<close> (\<open>word_of_int\<close>: modulo \<open>2^64\<close>, which sign-extends a
  negative value).
\<close>

definition give :: "integral \<Rightarrow> int \<Rightarrow> nat \<Rightarrow> DynamicSerializer \<Rightarrow> error + DynamicSerializer" where
  "give T data bits s =
     (if bits > bitsize T then
        Inl (invalid_argument
          ''Attempting to invoke serializer with bit size exceeding given type'')
      else if sizeof T > 8 then
        Inl (invalid_argument
          ''Attempting to invoke serializer with bit size exceeding platform support'')
      else if bits = 0 then
        Inl (invalid_argument ''Attempting to invoke serializer with no bits'')
      else Inr (ser_impl (word_of_int data) bits s))"

section \<open>The bit-stream decoder: \<^verbatim>\<open>Deserializer\<close>, \<^verbatim>\<open>BytewiseDeserializer\<close>, \<^verbatim>\<open>BufferDeserializer\<close>\<close>

text \<open>
  The state of a \<^verbatim>\<open>BufferDeserializer\<close>: the byte order, the current byte \<^verbatim>\<open>byte_\<close>, the
  count \<^verbatim>\<open>bitsLeft_\<close>, and the unread input. The source holds the unread input as a
  pointer and the counter \<^verbatim>\<open>size_\<close>; the model holds it as the list \<open>buffer\<close> of the
  \<^verbatim>\<open>size_\<close> bytes from the pointer on, so \<^verbatim>\<open>size_ == 0\<close> is \<open>buffer s = []\<close>.
\<close>

record BufferDeserializer =
  des_byteOrder :: ByteOrder
  des_byte :: uint8_t
  des_bitsLeft :: uint8_t
  buffer :: "uint8_t list"

text \<open>
  The constructor sets \<^verbatim>\<open>bitsLeft_ = 0\<close> and leaves the current byte uninitialized. The
  model starts it at 0: with \<^verbatim>\<open>bitsLeft_ = 0\<close> the first loop iteration replaces the byte
  by a fetched one before it is tested, so the result of no call depends on the initial
  content (lemma \<open>des_step_fresh_byte\<close> below).
\<close>

definition BufferDeserializer_init :: "uint8_t list \<Rightarrow> ByteOrder \<Rightarrow> BufferDeserializer" where
  "BufferDeserializer_init data byteOrder =
     \<lparr>des_byteOrder = byteOrder, des_byte = 0, des_bitsLeft = 0, buffer = data\<rparr>"

definition getByte :: "BufferDeserializer \<Rightarrow> error + (uint8_t \<times> BufferDeserializer)" where
  "getByte s =
     (case buffer s of
        [] \<Rightarrow> Inl (out_of_range ''Buffer deserializer out of range'')
      | b # bs \<Rightarrow> Inr (b, s\<lparr>buffer := bs\<rparr>))"

text \<open>
  One iteration of the \<^verbatim>\<open>for\<close> loop of \<^verbatim>\<open>BytewiseDeserializer::impl\<close>, on the pair
  \<open>(data, signMask)\<close>: shift the current byte, the data and the mask, fetch a fresh
  byte when \<^verbatim>\<open>bitsLeft_\<close> was zero (the post-decrement happens in both cases), and copy
  the bit under \<^verbatim>\<open>byteMask\<close>.
\<close>

definition des_step ::
  "size_t \<times> size_t \<Rightarrow> BufferDeserializer \<Rightarrow> error + ((size_t \<times> size_t) \<times> BufferDeserializer)" where
  "des_step dm s =
     (let lsb = (des_byteOrder s = LsbFirst);
          byteMask = (if lsb then 0x01 else 0x80) :: uint8_t;
          dataMask = (if lsb then push_bit 63 1 else 1) :: size_t;
          data = (if lsb then drop_bit 1 (fst dm) else push_bit 1 (fst dm));
          signMask = (if lsb then drop_bit 1 (snd dm) else push_bit 1 (snd dm));
          s1 = s\<lparr>des_byte := (if lsb then drop_bit 1 (des_byte s) else push_bit 1 (des_byte s))\<rparr>;
          s2 = s1\<lparr>des_bitsLeft := des_bitsLeft s1 - 1\<rparr>
      in case (if des_bitsLeft s1 = 0
               then (case getByte s2 of
                       Inl e \<Rightarrow> Inl e
                     | Inr (b, s3) \<Rightarrow> Inr (s3\<lparr>des_byte := b, des_bitsLeft := 7\<rparr>))
               else Inr s2) of
           Inl e \<Rightarrow> Inl e
         | Inr s4 \<Rightarrow>
             Inr ((if des_byte s4 AND byteMask \<noteq> 0 then data OR dataMask else data, signMask), s4))"

fun des_loop ::
  "nat \<Rightarrow> size_t \<times> size_t \<Rightarrow> BufferDeserializer \<Rightarrow> error + ((size_t \<times> size_t) \<times> BufferDeserializer)" where
  "des_loop 0 dm s = Inr (dm, s)"
| "des_loop (Suc n) dm s =
     (case des_step dm s of
        Inl e \<Rightarrow> Inl e
      | Inr (dm', s') \<Rightarrow> des_loop n dm' s')"

text \<open>
  \<^verbatim>\<open>BytewiseDeserializer::impl(data, bits, signExtend)\<close>; the result is the final content
  of the reference parameter \<^verbatim>\<open>data\<close>. \<^verbatim>\<open>take\<close> calls it with \<open>1 \<le> bits \<le> 64\<close> only.
\<close>

definition des_impl ::
  "size_t \<Rightarrow> nat \<Rightarrow> bool \<Rightarrow> BufferDeserializer \<Rightarrow> error + (size_t \<times> BufferDeserializer)" where
  "des_impl data0 bits signExtend s =
     (case des_loop bits (data0, - 1) s of
        Inl e \<Rightarrow> Inl e
      | Inr ((data, signMask), s') \<Rightarrow>
          (let lsb = (des_byteOrder s = LsbFirst);
               data1 = (if lsb then drop_bit (64 - bits) data else data);
               signMask1 = (if lsb then NOT signMask else signMask)
           in Inr (if signExtend then data1 OR signMask1 else data1, s')))"

text \<open>\<^verbatim>\<open>Deserializer::take<T>(bits)\<close>, named \<open>takeT\<close> here (\<open>take\<close> is the list function of HOL).\<close>

definition takeT :: "integral \<Rightarrow> nat \<Rightarrow> BufferDeserializer \<Rightarrow> error + (int \<times> BufferDeserializer)" where
  "takeT T bits s =
     (if bits > bitsize T then
        Inl (invalid_argument
          ''Attempting to invoke deserializer with bit size exceeding given type'')
      else if sizeof T > 8 then
        Inl (invalid_argument
          ''Attempting to invoke deserializer with bit size exceeding platform support'')
      else if bits = 0 then
        Inl (invalid_argument ''Attempting to invoke deserializer with no bits'')
      else (case des_impl 0 bits (is_signed T) s of
              Inl e \<Rightarrow> Inl e
            | Inr (v, s') \<Rightarrow> Inr (static_cast T v, s')))"

section \<open>Structural decomposition\<close>

text \<open>
  What the decomposition reads of a type \<^verbatim>\<open>T\<close>: the traits \<^verbatim>\<open>std::is_class\<close> and
  \<^verbatim>\<open>std::is_standard_layout\<close>, and the initializers that the aggregate initialization
  \<^verbatim>\<open>T{...}\<close> takes, in declaration order, each with the pair \<open>(sizeof, alignof)\<close> of the
  type it initializes. A non-static data member takes one initializer, of the member's
  type; a member that is a built-in array takes one per element, of the element type
  (no conversion to an array type exists, so the braces of the array are elided and the
  initializers go to its elements): \<^verbatim>\<open>struct { int a[3]; int b; }\<close> is described by four
  entries \<open>(4, 4)\<close>. \<^verbatim>\<open>std::is_empty\<close> holds when there is no member.
\<close>

record class_type =
  is_class :: bool
  is_standard_layout :: bool
  members :: "(nat \<times> nat) list"

definition is_empty :: "class_type \<Rightarrow> bool" where
  "is_empty T = (members T = [])"

text \<open>
  \<^verbatim>\<open>is_initializable<T, Atom, ..., Atom>\<close> with \<open>k\<close> atoms is the compiler's answer to
  whether \<^verbatim>\<open>T{atom, ..., atom}\<close> is well-formed. An atom converts to every object type,
  so for an aggregate the answer is that \<open>k\<close> does not exceed the number of initializers
  the aggregate takes, which is the length of \<open>members\<close> (the repository's test
  \<^verbatim>\<open>trait.is_initializable\<close> checks this for \<^verbatim>\<open>Trio\<close>). A class with constructors of its
  own is outside this description.
\<close>

definition is_initializable :: "class_type \<Rightarrow> nat \<Rightarrow> bool" where
  "is_initializable T k = (k \<le> length (members T))"

text \<open>
  \<^verbatim>\<open>detail::member_pack_impl\<close> on a pack of \<open>k\<close> atoms, returning the size of the final
  pack. The three partial specializations, in the order of the source: double the pack
  while \<^verbatim>\<open>T\<close> is initializable from the doubled pack; otherwise add one atom while \<^verbatim>\<open>T\<close>
  is initializable from one more; otherwise the pack is the result. When none applies
  the primary template gives \<^verbatim>\<open>pack<>\<close>. \<open>None\<close> is a program the compiler rejects: the
  first and the last specialization both matching (ambiguous), or an instantiation that
  never ends.
\<close>

partial_function (option) member_pack_impl :: "(nat \<Rightarrow> bool) \<Rightarrow> nat \<Rightarrow> nat option" where
  "member_pack_impl init k =
     (if init (2 * k) \<and> init k \<and> \<not> init (k + 1) then None
      else if init (2 * k) then member_pack_impl init (2 * k)
      else if init k \<and> init (k + 1) then member_pack_impl init (k + 1)
      else if init k then Some k
      else Some 0)"

text \<open>
  \<^verbatim>\<open>member_count<T>::value\<close>: the probing starts from one atom for a non-empty
  standard-layout class, and the count is 0 for every other type.
\<close>

definition member_count :: "class_type \<Rightarrow> nat option" where
  "member_count T =
     (if \<not> is_empty T \<and> is_standard_layout T \<and> is_class T
      then member_pack_impl (is_initializable T) 1
      else Some 0)"

text \<open>
  \<^verbatim>\<open>detail::member_offsets_impl\<close>: \<^verbatim>\<open>T{atom_offset_binder{base, offsets[Is]}...}\<close> converts
  one binder to each member type, left to right; each conversion rounds \<^verbatim>\<open>base\<close> up to
  \<^verbatim>\<open>alignof\<close> of the type it converts to, records it, and advances it by \<^verbatim>\<open>sizeof\<close> of
  that type. The offsets are computed from the types alone: where the compiler has put
  the member is not consulted.
\<close>

fun member_offsets_impl :: "nat \<Rightarrow> (nat \<times> nat) list \<Rightarrow> nat list" where
  "member_offsets_impl base [] = []"
| "member_offsets_impl base ((sz, al) # ms) =
     (let base' = (base + al - 1) div al * al
      in base' # member_offsets_impl (base' + sz) ms)"

definition member_offsets :: "class_type \<Rightarrow> nat list option" where
  "member_offsets T =
     (case member_count T of
        None \<Rightarrow> None
      | Some n \<Rightarrow> Some (member_offsets_impl 0 (List.take n (members T))))"

text \<open>
  The test's \<^verbatim>\<open>struct Trio { uint32_t a; bool b; char c; }\<close>, with the default alignment 4
  of the 32-bit member.
\<close>

definition Trio :: class_type where
  "Trio = \<lparr>is_class = True, is_standard_layout = True, members = [(4, 4), (1, 1), (1, 1)]\<rparr>"

section \<open>Types, values and the policy resolver\<close>

text \<open>
  What the compiler fixes of a class type: \<^verbatim>\<open>sizeof\<close>, \<^verbatim>\<open>alignof\<close>, and the byte offset
  (\<^verbatim>\<open>offsetof\<close>) of each of the members that the decomposition counts, in declaration
  order. An \<^verbatim>\<open>alignas\<close> on a member or a packing pragma moves members without changing
  their types.
\<close>

record layout =
  class_sizeof :: nat
  class_alignof :: nat
  class_offsets :: "nat list"

text \<open>
  The types the resolver has a policy for: integral types, enumerations (with their
  underlying type), floating-point types (with their \<^verbatim>\<open>sizeof\<close>), resizable iterable
  containers (\<^verbatim>\<open>std::vector<E>\<close>), iterable containers that are not resizable
  (\<^verbatim>\<open>std::array<E, N>\<close>), standard-layout classes (with their layout and the types of
  their members in declaration order), \<^verbatim>\<open>Bits<T, Width>\<close> and \<^verbatim>\<open>Spare<Width>\<close>.
\<close>

datatype ty =
    Integral integral
  | Enum integral
  | Floating nat
  | Resizable ty
  | FixedArity nat ty
  | Composite layout "ty list"
  | Bits integral nat
  | Spare nat

text \<open>
  \<^verbatim>\<open>sizeof(T)\<close> and \<^verbatim>\<open>alignof(T)\<close> on the platform of the embedding: a scalar is aligned to
  its size, a \<^verbatim>\<open>std::vector\<close> holds three pointers, a \<^verbatim>\<open>std::array\<close> is its elements (one
  byte when it has none), \<^verbatim>\<open>Bits<T, Width>\<close> holds one \<^verbatim>\<open>T\<close>, and \<^verbatim>\<open>Spare<Width>\<close> is an
  empty class, of size 1.
\<close>

fun sizeof_ty :: "ty \<Rightarrow> nat" where
  "sizeof_ty (Integral T) = sizeof T"
| "sizeof_ty (Enum U) = sizeof U"
| "sizeof_ty (Floating n) = n"
| "sizeof_ty (Resizable E) = 24"
| "sizeof_ty (FixedArity n E) = max 1 (n * sizeof_ty E)"
| "sizeof_ty (Composite L Ts) = class_sizeof L"
| "sizeof_ty (Bits T w) = sizeof T"
| "sizeof_ty (Spare w) = 1"

fun alignof_ty :: "ty \<Rightarrow> nat" where
  "alignof_ty (Integral T) = sizeof T"
| "alignof_ty (Enum U) = sizeof U"
| "alignof_ty (Floating n) = n"
| "alignof_ty (Resizable E) = 8"
| "alignof_ty (FixedArity n E) = alignof_ty E"
| "alignof_ty (Composite L Ts) = class_alignof L"
| "alignof_ty (Bits T w) = sizeof T"
| "alignof_ty (Spare w) = 1"

text \<open>
  What the decomposition reads of a standard-layout class with members of the types
  \<open>Ts\<close>: the member policy calls \<^verbatim>\<open>member_count\<close> and \<^verbatim>\<open>member_offsets\<close> on it.
\<close>

definition class_of :: "ty list \<Rightarrow> class_type" where
  "class_of Ts =
     \<lparr>is_class = True, is_standard_layout = True,
      members = map (\<lambda>T. (sizeof_ty T, alignof_ty T)) Ts\<rparr>"

text \<open>
  Values: a \<open>Scalar\<close> is the value of an integer, an enumeration or a \<^verbatim>\<open>Bits\<close> field, or
  the bit pattern of a floating-point number (all the float policy reads, by
  \<^verbatim>\<open>memcpy\<close>); \<open>Elems\<close> are the elements of a container in iteration order; \<open>Unit\<close> is
  the only value of a \<^verbatim>\<open>Spare\<close>. \<open>Fields\<close> is the storage of a class object: the objects
  it holds, each with the byte offset at which it starts. The members are the entries at
  the offsets of the layout; an entry at another offset is what padding holds, seen as
  an object of the type it is read at.
\<close>

datatype val = Scalar int | Elems "val list" | Fields "(nat \<times> val) list" | Unit

text \<open>
  \<^verbatim>\<open>Serializer::put\<close>, that is \<^verbatim>\<open>Policy<T>::serialize\<close> for the policy the resolver
  selects. \<open>put_each\<close> is the iterator loop of the two collection policies. The member
  policy applies when \<^verbatim>\<open>member_count<T>::value != 0\<close>; \<open>put_members\<close> is its loop over
  \<^verbatim>\<open>member_offsets<T>::value()\<close> and the member types: each round reads
  \<^verbatim>\<open>*reinterpret_cast<const M*>(pData + offset)\<close>, the object of the member's type \<^verbatim>\<open>M\<close>
  at the computed offset. A floating-point type whose width is not 16, 32 or 64 has no
  policy.
\<close>

fun put :: "ty \<Rightarrow> val \<Rightarrow> DynamicSerializer \<Rightarrow> error + DynamicSerializer"
and put_each :: "ty \<Rightarrow> val list \<Rightarrow> DynamicSerializer \<Rightarrow> error + DynamicSerializer"
and put_members ::
  "nat list \<Rightarrow> ty list \<Rightarrow> (nat \<times> val) list \<Rightarrow> DynamicSerializer \<Rightarrow> error + DynamicSerializer"
where
  "put (Integral T) (Scalar x) s = give T x (bitsize T) s"
| "put (Enum U) (Scalar x) s = give U x (bitsize U) s"
| "put (Floating n) (Scalar x) s =
     (if n = 2 \<or> n = 4 \<or> n = 8 then give (Unsigned n) x (bitsize (Unsigned n)) s
      else Inl (static_assert ''No policy exists for this type''))"
| "put (Resizable E) (Elems xs) s =
     (case give size_t_type (int (length xs)) (bitsize size_t_type) s of
        Inl e \<Rightarrow> Inl e
      | Inr s' \<Rightarrow> put_each E xs s')"
| "put (FixedArity n E) (Elems xs) s =
     (if length xs = n then put_each E xs s else Inl type_mismatch)"
| "put (Composite L Ts) (Fields m) s =
     (case member_offsets (class_of Ts) of
        None \<Rightarrow> Inl (static_assert ''member_pack_impl does not resolve'')
      | Some offsets \<Rightarrow>
          if offsets = [] then Inl (static_assert ''No policy exists for this type'')
          else put_members offsets Ts m s)"
| "put (Bits T w) (Scalar x) s =
     (if w > bitsize T then Inl (static_assert ''Instantiation of Bits is too large'')
      else give T x w s)"
| "put (Spare w) Unit s =
     (if w > bitsize size_t_type then Inl (static_assert ''Instantiation of Spare is too large'')
      else give size_t_type 0 w s)"
| "put _ _ s = Inl type_mismatch"
| "put_each E [] s = Inr s"
| "put_each E (x # xs) s =
     (case put E x s of Inl e \<Rightarrow> Inl e | Inr s' \<Rightarrow> put_each E xs s')"
| "put_members [] [] m s = Inr s"
| "put_members (offset # offsets) (T # Ts) m s =
     (case map_of m offset of
        None \<Rightarrow> Inl indeterminate
      | Some x \<Rightarrow>
          (case put T x s of Inl e \<Rightarrow> Inl e | Inr s' \<Rightarrow> put_members offsets Ts m s'))"
| "put_members _ _ m s = Inl type_mismatch"

text \<open>
  Value-initialization \<^verbatim>\<open>T{}\<close>, as \<^verbatim>\<open>deserialize<T>\<close> and \<^verbatim>\<open>resize\<close> perform it: the
  members of a class are value-initialized where the compiler has put them.
\<close>

fun default_val :: "ty \<Rightarrow> val" where
  "default_val (Integral T) = Scalar 0"
| "default_val (Enum U) = Scalar 0"
| "default_val (Floating n) = Scalar 0"
| "default_val (Resizable E) = Elems []"
| "default_val (FixedArity n E) = Elems (replicate n (default_val E))"
| "default_val (Composite L Ts) = Fields (zip (class_offsets L) (map default_val Ts))"
| "default_val (Bits T w) = Scalar 0"
| "default_val (Spare w) = Unit"

text \<open>
  \<^verbatim>\<open>t.resize(size)\<close> of a vector with element type \<open>E\<close>: keep the first \<open>n\<close> elements,
  or append value-initialized ones. The allocation is not modelled (the source can fail
  with \<^verbatim>\<open>std::length_error\<close> or \<^verbatim>\<open>std::bad_alloc\<close> on a huge count).
\<close>

definition resize :: "ty \<Rightarrow> val list \<Rightarrow> nat \<Rightarrow> val list" where
  "resize E xs n = List.take n xs @ replicate (n - length xs) (default_val E)"

text \<open>
  A value has the form of a type when its constructor is that of the type and an array
  has its length; the decoding of a type starts from a destination of this form.
\<close>

fun shaped :: "ty \<Rightarrow> val \<Rightarrow> bool"
and shaped_each :: "ty \<Rightarrow> val list \<Rightarrow> bool"
where
  "shaped (Integral T) (Scalar x) = True"
| "shaped (Enum U) (Scalar x) = True"
| "shaped (Floating n) (Scalar x) = True"
| "shaped (Resizable E) (Elems xs) = shaped_each E xs"
| "shaped (FixedArity n E) (Elems xs) = (length xs = n \<and> shaped_each E xs)"
| "shaped (Composite L Ts) (Fields m) = True"
| "shaped (Bits T w) (Scalar x) = True"
| "shaped (Spare w) Unit = True"
| "shaped _ _ = False"
| "shaped_each E [] = True"
| "shaped_each E (x # xs) = (shaped E x \<and> shaped_each E xs)"

text \<open>
  The destination \<^verbatim>\<open>*reinterpret_cast<M*>(pData + offset)\<close> of the member policy: the
  object stored at the offset when it is one of the member's type \<^verbatim>\<open>M\<close>. Otherwise the
  bytes there are not an \<^verbatim>\<open>M\<close>; the decoding overwrites them, and the model lets it start
  from a value-initialized \<^verbatim>\<open>M\<close>.
\<close>

definition member_at :: "(nat \<times> val) list \<Rightarrow> nat \<Rightarrow> ty \<Rightarrow> val" where
  "member_at m offset T =
     (case map_of m offset of
        None \<Rightarrow> default_val T
      | Some x \<Rightarrow> if shaped T x then x else default_val T)"

text \<open>The write through that pointer: the storage holds \<open>y\<close> at the offset afterwards.\<close>

fun store :: "nat \<Rightarrow> val \<Rightarrow> (nat \<times> val) list \<Rightarrow> (nat \<times> val) list" where
  "store offset y [] = [(offset, y)]"
| "store offset y ((offset', x) # m) =
     (if offset' = offset then (offset, y) # m else (offset', x) # store offset y m)"

text \<open>
  \<^verbatim>\<open>Deserializer::get\<close>, that is \<^verbatim>\<open>Policy<T>::deserialize\<close>, decoding into the destination
  \<open>t\<close> in place and returning its new value. \<open>get_members\<close> is the loop of the member
  policy: each round decodes into the object at the computed offset.
\<close>

fun get :: "ty \<Rightarrow> val \<Rightarrow> BufferDeserializer \<Rightarrow> error + (val \<times> BufferDeserializer)"
and get_each :: "ty \<Rightarrow> val list \<Rightarrow> BufferDeserializer \<Rightarrow> error + (val list \<times> BufferDeserializer)"
and get_members ::
  "nat list \<Rightarrow> ty list \<Rightarrow> (nat \<times> val) list \<Rightarrow> BufferDeserializer
     \<Rightarrow> error + ((nat \<times> val) list \<times> BufferDeserializer)"
where
  "get (Integral T) (Scalar x) s =
     (case takeT T (bitsize T) s of Inl e \<Rightarrow> Inl e | Inr (v, s') \<Rightarrow> Inr (Scalar v, s'))"
| "get (Enum U) (Scalar x) s =
     (case takeT U (bitsize U) s of Inl e \<Rightarrow> Inl e | Inr (v, s') \<Rightarrow> Inr (Scalar v, s'))"
| "get (Floating n) (Scalar x) s =
     (if n = 2 \<or> n = 4 \<or> n = 8 then
        (case takeT (Unsigned n) (bitsize (Unsigned n)) s of
           Inl e \<Rightarrow> Inl e
         | Inr (v, s') \<Rightarrow> Inr (Scalar v, s'))
      else Inl (static_assert ''No policy exists for this type''))"
| "get (Resizable E) (Elems xs) s =
     (case takeT size_t_type (bitsize size_t_type) s of
        Inl e \<Rightarrow> Inl e
      | Inr (count, s1) \<Rightarrow>
          (case get_each E (resize E xs (nat count)) s1 of
             Inl e \<Rightarrow> Inl e
           | Inr (ys, s2) \<Rightarrow> Inr (Elems ys, s2)))"
| "get (FixedArity n E) (Elems xs) s =
     (if length xs = n then
        (case get_each E xs s of Inl e \<Rightarrow> Inl e | Inr (ys, s') \<Rightarrow> Inr (Elems ys, s'))
      else Inl type_mismatch)"
| "get (Composite L Ts) (Fields m) s =
     (case member_offsets (class_of Ts) of
        None \<Rightarrow> Inl (static_assert ''member_pack_impl does not resolve'')
      | Some offsets \<Rightarrow>
          if offsets = [] then Inl (static_assert ''No policy exists for this type'')
          else (case get_members offsets Ts m s of
                  Inl e \<Rightarrow> Inl e
                | Inr (m', s') \<Rightarrow> Inr (Fields m', s')))"
| "get (Bits T w) (Scalar x) s =
     (if w > bitsize T then Inl (static_assert ''Instantiation of Bits is too large'')
      else (case takeT T w s of Inl e \<Rightarrow> Inl e | Inr (v, s') \<Rightarrow> Inr (Scalar v, s')))"
| "get (Spare w) Unit s =
     (if w > bitsize size_t_type then Inl (static_assert ''Instantiation of Spare is too large'')
      else (case takeT size_t_type w s of Inl e \<Rightarrow> Inl e | Inr (v, s') \<Rightarrow> Inr (Unit, s')))"
| "get _ _ s = Inl type_mismatch"
| "get_each E [] s = Inr ([], s)"
| "get_each E (x # xs) s =
     (case get E x s of
        Inl e \<Rightarrow> Inl e
      | Inr (y, s') \<Rightarrow>
          (case get_each E xs s' of Inl e \<Rightarrow> Inl e | Inr (ys, s'') \<Rightarrow> Inr (y # ys, s'')))"
| "get_members [] [] m s = Inr (m, s)"
| "get_members (offset # offsets) (T # Ts) m s =
     (case get T (member_at m offset T) s of
        Inl e \<Rightarrow> Inl e
      | Inr (y, s') \<Rightarrow> get_members offsets Ts (store offset y m) s')"
| "get_members _ _ m s = Inl type_mismatch"

section \<open>The entry points\<close>

text \<open>\<^verbatim>\<open>serialize(t, byteOrder)\<close>: a fresh serializer, \<^verbatim>\<open>ser << t\<close>, \<^verbatim>\<open>flush\<close>, the bytes.\<close>

definition serialize :: "ty \<Rightarrow> val \<Rightarrow> ByteOrder \<Rightarrow> error + uint8_t list" where
  "serialize T t byteOrder =
     (case put T t (DynamicSerializer_init byteOrder) of
        Inl e \<Rightarrow> Inl e
      | Inr s \<Rightarrow> Inr (bytes (flush s)))"

text \<open>\<^verbatim>\<open>deserialize(t, data, byteOrder)\<close>, decoding into an existing value.\<close>

definition deserialize_into :: "ty \<Rightarrow> val \<Rightarrow> uint8_t list \<Rightarrow> ByteOrder \<Rightarrow> error + val" where
  "deserialize_into T t data byteOrder =
     (case get T t (BufferDeserializer_init data byteOrder) of
        Inl e \<Rightarrow> Inl e
      | Inr (t', s) \<Rightarrow> Inr t')"

text \<open>\<^verbatim>\<open>deserialize<T>(data, byteOrder)\<close>: \<^verbatim>\<open>T t{}\<close>, then decode into it.\<close>

definition deserialize :: "ty \<Rightarrow> uint8_t list \<Rightarrow> ByteOrder \<Rightarrow> error + val" where
  "deserialize T data byteOrder = deserialize_into T (default_val T) data byteOrder"

section \<open>The types of the tests\<close>

text \<open>
  The test's \<^verbatim>\<open>struct Trio { uint32_t a; bool b; char c; }\<close> as a type of values: the
  members lie at the offsets 0, 4 and 5 (\<^verbatim>\<open>char\<close> is signed on the platform).
\<close>

definition Trio_type :: ty where
  "Trio_type =
     Composite \<lparr>class_sizeof = 8, class_alignof = 4, class_offsets = [0, 4, 5]\<rparr>
       [Integral (Unsigned 4), Integral Bool, Integral (Signed 1)]"

text \<open>
  The test's \<^verbatim>\<open>struct Flags { Spare<4> spare; Bits<uint8_t, 2> a; Bits<uint8_t, 2> b; }\<close>:
  three members of size 1, at the offsets 0, 1 and 2.
\<close>

definition Flags :: ty where
  "Flags =
     Composite \<lparr>class_sizeof = 3, class_alignof = 1, class_offsets = [0, 1, 2]\<rparr>
       [Spare 4, Bits (Unsigned 1) 2, Bits (Unsigned 1) 2]"

text \<open>
  A class with an over-aligned member, \<^verbatim>\<open>struct Al { uint8_t a; alignas(4) uint8_t b; }\<close>:
  the compiler puts \<^verbatim>\<open>b\<close> at offset 4, and the bytes 1 to 3 are padding.
\<close>

definition Al :: ty where
  "Al =
     Composite \<lparr>class_sizeof = 8, class_alignof = 4, class_offsets = [0, 4]\<rparr>
       [Integral (Unsigned 1), Integral (Unsigned 1)]"

section \<open>Auxiliary notions for the statements\<close>

text \<open>\<open>n\<close> successive calls of \<^verbatim>\<open>getByte\<close>, collecting the bytes pulled.\<close>

fun pull :: "nat \<Rightarrow> BufferDeserializer \<Rightarrow> error + (uint8_t list \<times> BufferDeserializer)" where
  "pull 0 s = Inr ([], s)"
| "pull (Suc n) s =
     (case getByte s of
        Inl e \<Rightarrow> Inl e
      | Inr (b, s') \<Rightarrow>
          (case pull n s' of Inl e \<Rightarrow> Inl e | Inr (bs, s'') \<Rightarrow> Inr (b # bs, s'')))"

text \<open>
  The members of a class object: what its storage holds at the offsets of the layout.
  Two objects of a class are equal as values when their members are.
\<close>

fun member_values :: "ty \<Rightarrow> val \<Rightarrow> val option list" where
  "member_values (Composite L Ts) (Fields m) = map (map_of m) (class_offsets L)"
| "member_values T t = []"

subsection \<open>The encoder as a producer of bits\<close>

text \<open>
  The invariant of the accumulator between two calls: fewer than 8 bits are pending, and
  the accumulator is zero outside the positions they occupy after the loop's last shift,
  \<open>1..k\<close> when the most significant bit goes first and \<open>7-k..6\<close> otherwise.
\<close>

definition occ :: "ByteOrder \<Rightarrow> nat \<Rightarrow> nat \<Rightarrow> bool" where
  "occ byteOrder k i = (if byteOrder = MsbFirst then 1 \<le> i \<and> i \<le> k else 7 \<le> i + k \<and> i < 7)"

definition ser_inv :: "DynamicSerializer \<Rightarrow> bool" where
  "ser_inv s \<longleftrightarrow> unat (ser_bitsSet s) < 8 \<and>
     (\<forall>i. bit (ser_byte s) i \<longrightarrow> occ (ser_byteOrder s) (unat (ser_bitsSet s)) i)"

text \<open>
  The first \<open>n\<close> bits of a word in the order of transmission: from bit \<open>n - 1\<close> down when
  the most significant bit goes first, from bit 0 up otherwise. A byte of the output
  carries its 8 bits in this order.
\<close>

definition data_bits :: "ByteOrder \<Rightarrow> nat \<Rightarrow> 'a::len word \<Rightarrow> bool list" where
  "data_bits byteOrder n w =
     (if byteOrder = MsbFirst then map (bit w) (rev [0..<n]) else map (bit w) [0..<n])"

text \<open>The \<open>k\<close> bits pending in the accumulator, oldest first.\<close>

definition pending :: "ByteOrder \<Rightarrow> nat \<Rightarrow> uint8_t \<Rightarrow> bool list" where
  "pending byteOrder k b =
     (if byteOrder = MsbFirst then map (bit b) (rev [1..<Suc k]) else map (bit b) [7 - k..<7])"

text \<open>
  All the bits a serializer has been given, in the order of the calls: those of the
  emitted bytes, then the pending ones.
\<close>

definition stream :: "DynamicSerializer \<Rightarrow> bool list" where
  "stream s =
     concat (map (data_bits (ser_byteOrder s) 8) (bytes s))
       @ pending (ser_byteOrder s) (unat (ser_bitsSet s)) (ser_byte s)"

text \<open>The bits that a successful \<^verbatim>\<open>give<T>(x, n)\<close> appends, and its failures.\<close>

definition bits_give :: "ByteOrder \<Rightarrow> integral \<Rightarrow> int \<Rightarrow> nat \<Rightarrow> error + bool list" where
  "bits_give byteOrder T x n =
     (if n > bitsize T then
        Inl (invalid_argument
          ''Attempting to invoke serializer with bit size exceeding given type'')
      else if sizeof T > 8 then
        Inl (invalid_argument
          ''Attempting to invoke serializer with bit size exceeding platform support'')
      else if n = 0 then
        Inl (invalid_argument ''Attempting to invoke serializer with no bits'')
      else Inr (data_bits byteOrder n (word_of_int x :: size_t)))"

text \<open>
  The bits that \<^verbatim>\<open>put\<close> appends for a value of a type, whatever the state of the
  serializer: \<open>enc\<close> follows \<open>put\<close> equation by equation, with \<open>bits_give\<close> for \<open>give\<close>
  (lemma \<open>put_emits\<close> below).
\<close>

fun enc :: "ByteOrder \<Rightarrow> ty \<Rightarrow> val \<Rightarrow> error + bool list"
and enc_each :: "ByteOrder \<Rightarrow> ty \<Rightarrow> val list \<Rightarrow> error + bool list"
and enc_members :: "ByteOrder \<Rightarrow> nat list \<Rightarrow> ty list \<Rightarrow> (nat \<times> val) list \<Rightarrow> error + bool list"
where
  "enc bo (Integral T) (Scalar x) = bits_give bo T x (bitsize T)"
| "enc bo (Enum U) (Scalar x) = bits_give bo U x (bitsize U)"
| "enc bo (Floating n) (Scalar x) =
     (if n = 2 \<or> n = 4 \<or> n = 8 then bits_give bo (Unsigned n) x (bitsize (Unsigned n))
      else Inl (static_assert ''No policy exists for this type''))"
| "enc bo (Resizable E) (Elems xs) =
     (case bits_give bo size_t_type (int (length xs)) (bitsize size_t_type) of
        Inl e \<Rightarrow> Inl e
      | Inr c \<Rightarrow> (case enc_each bo E xs of Inl e \<Rightarrow> Inl e | Inr bs \<Rightarrow> Inr (c @ bs)))"
| "enc bo (FixedArity n E) (Elems xs) =
     (if length xs = n then enc_each bo E xs else Inl type_mismatch)"
| "enc bo (Composite L Ts) (Fields m) =
     (case member_offsets (class_of Ts) of
        None \<Rightarrow> Inl (static_assert ''member_pack_impl does not resolve'')
      | Some offsets \<Rightarrow>
          if offsets = [] then Inl (static_assert ''No policy exists for this type'')
          else enc_members bo offsets Ts m)"
| "enc bo (Bits T w) (Scalar x) =
     (if w > bitsize T then Inl (static_assert ''Instantiation of Bits is too large'')
      else bits_give bo T x w)"
| "enc bo (Spare w) Unit =
     (if w > bitsize size_t_type then Inl (static_assert ''Instantiation of Spare is too large'')
      else bits_give bo size_t_type 0 w)"
| "enc bo _ _ = Inl type_mismatch"
| "enc_each bo E [] = Inr []"
| "enc_each bo E (x # xs) =
     (case enc bo E x of
        Inl e \<Rightarrow> Inl e
      | Inr b \<Rightarrow> (case enc_each bo E xs of Inl e \<Rightarrow> Inl e | Inr bs \<Rightarrow> Inr (b @ bs)))"
| "enc_members bo [] [] m = Inr []"
| "enc_members bo (offset # offsets) (T # Ts) m =
     (case map_of m offset of
        None \<Rightarrow> Inl indeterminate
      | Some x \<Rightarrow>
          (case enc bo T x of
             Inl e \<Rightarrow> Inl e
           | Inr b \<Rightarrow>
               (case enc_members bo offsets Ts m of Inl e \<Rightarrow> Inl e | Inr bs \<Rightarrow> Inr (b @ bs))))"
| "enc_members bo _ _ m = Inl type_mismatch"

text \<open>
  A run \<open>c\<close> of the encoder from the state \<open>s\<close> follows the description \<open>a\<close>: it fails
  with the same error, or it appends the bits described and keeps invariant and byte
  order.
\<close>

definition emits :: "DynamicSerializer \<Rightarrow> error + DynamicSerializer \<Rightarrow> error + bool list \<Rightarrow> bool" where
  "emits s c a =
     (case a of
        Inl e \<Rightarrow> c = Inl e
      | Inr bs \<Rightarrow>
          (\<exists>s'. c = Inr s' \<and> stream s' = stream s @ bs \<and> ser_inv s'
             \<and> ser_byteOrder s' = ser_byteOrder s))"

text \<open>
  Every container that \<^verbatim>\<open>put\<close> visits in a value has a size that a \<^verbatim>\<open>size_t\<close> holds, as
  \<^verbatim>\<open>size()\<close> returns one. The model's lists are unbounded, so the statements about
  encoded values assume it.
\<close>

fun sizes_fit :: "ty \<Rightarrow> val \<Rightarrow> bool"
and sizes_fit_each :: "ty \<Rightarrow> val list \<Rightarrow> bool"
and sizes_fit_members :: "nat list \<Rightarrow> ty list \<Rightarrow> (nat \<times> val) list \<Rightarrow> bool"
where
  "sizes_fit (Resizable E) (Elems xs) = (length xs < 2 ^ 64 \<and> sizes_fit_each E xs)"
| "sizes_fit (FixedArity n E) (Elems xs) = sizes_fit_each E xs"
| "sizes_fit (Composite L Ts) (Fields m) =
     (case member_offsets (class_of Ts) of
        None \<Rightarrow> True
      | Some offsets \<Rightarrow> sizes_fit_members offsets Ts m)"
| "sizes_fit T v = True"
| "sizes_fit_each E [] = True"
| "sizes_fit_each E (x # xs) = (sizes_fit E x \<and> sizes_fit_each E xs)"
| "sizes_fit_members (offset # offsets) (T # Ts) m =
     ((case map_of m offset of None \<Rightarrow> True | Some x \<Rightarrow> sizes_fit T x)
      \<and> sizes_fit_members offsets Ts m)"
| "sizes_fit_members offsets Ts m = True"

subsection \<open>The decoder as a consumer of bits\<close>

text \<open>The \<open>l\<close> bits of the current byte that are still to be read, next one first.\<close>

definition current :: "ByteOrder \<Rightarrow> nat \<Rightarrow> uint8_t \<Rightarrow> bool list" where
  "current byteOrder l b =
     (if byteOrder = MsbFirst then map (bit b) (rev [7 - l..<7]) else map (bit b) [1..<Suc l])"

text \<open>All the bits a deserializer has still to read: those left of the current byte, then
  those of the unread input.\<close>

definition rbits :: "BufferDeserializer \<Rightarrow> bool list" where
  "rbits s =
     current (des_byteOrder s) (unat (des_bitsLeft s)) (des_byte s)
       @ concat (map (data_bits (des_byteOrder s) 8) (buffer s))"

definition des_inv :: "BufferDeserializer \<Rightarrow> bool" where
  "des_inv s \<longleftrightarrow> unat (des_bitsLeft s) \<le> 7"

text \<open>
  What one iteration of the loop of \<^verbatim>\<open>BytewiseDeserializer::impl\<close> does to the pair
  \<open>(data, signMask)\<close> when the bit read is \<open>x\<close>; and the word that \<^verbatim>\<open>impl\<close> returns when
  the \<open>n\<close> bits read are \<open>xs\<close>.
\<close>

definition accumulate :: "ByteOrder \<Rightarrow> size_t \<times> size_t \<Rightarrow> bool \<Rightarrow> size_t \<times> size_t" where
  "accumulate byteOrder dm x =
     (if byteOrder = LsbFirst
      then (if x then drop_bit 1 (fst dm) OR push_bit 63 1 else drop_bit 1 (fst dm), drop_bit 1 (snd dm))
      else (if x then push_bit 1 (fst dm) OR 1 else push_bit 1 (fst dm), push_bit 1 (snd dm)))"

definition decode_word :: "ByteOrder \<Rightarrow> nat \<Rightarrow> bool \<Rightarrow> bool list \<Rightarrow> size_t" where
  "decode_word byteOrder n signExtend xs =
     (let dm = foldl (accumulate byteOrder) (0, - 1) xs;
          data1 = (if byteOrder = LsbFirst then drop_bit (64 - n) (fst dm) else fst dm);
          signMask1 = (if byteOrder = LsbFirst then NOT (snd dm) else snd dm)
      in if signExtend then data1 OR signMask1 else data1)"

text \<open>\<^verbatim>\<open>take<T>(n)\<close> on the bits still to be read: the value and the bits left, or the
  failure.\<close>

definition bits_take :: "ByteOrder \<Rightarrow> integral \<Rightarrow> nat \<Rightarrow> bool list \<Rightarrow> error + (int \<times> bool list)" where
  "bits_take byteOrder T n xs =
     (if n > bitsize T then
        Inl (invalid_argument
          ''Attempting to invoke deserializer with bit size exceeding given type'')
      else if sizeof T > 8 then
        Inl (invalid_argument
          ''Attempting to invoke deserializer with bit size exceeding platform support'')
      else if n = 0 then
        Inl (invalid_argument ''Attempting to invoke deserializer with no bits'')
      else if length xs < n then Inl (out_of_range ''Buffer deserializer out of range'')
      else Inr (static_cast T (decode_word byteOrder n (is_signed T) (List.take n xs)), drop n xs))"

text \<open>
  The bits that \<^verbatim>\<open>get\<close> leaves of the bits still to be read, or its failure: \<open>dec\<close>
  follows \<open>get\<close> equation by equation, with \<open>bits_take\<close> for \<open>take\<close> (lemma \<open>get_runs\<close>
  below). Which bits are consumed depends on no destination, only on the counts read.
\<close>

fun dec :: "ByteOrder \<Rightarrow> ty \<Rightarrow> bool list \<Rightarrow> error + bool list"
and dec_each :: "ByteOrder \<Rightarrow> ty \<Rightarrow> nat \<Rightarrow> bool list \<Rightarrow> error + bool list"
and dec_members :: "ByteOrder \<Rightarrow> nat list \<Rightarrow> ty list \<Rightarrow> bool list \<Rightarrow> error + bool list"
where
  "dec bo (Integral T) xs =
     (case bits_take bo T (bitsize T) xs of Inl e \<Rightarrow> Inl e | Inr (v, r) \<Rightarrow> Inr r)"
| "dec bo (Enum U) xs =
     (case bits_take bo U (bitsize U) xs of Inl e \<Rightarrow> Inl e | Inr (v, r) \<Rightarrow> Inr r)"
| "dec bo (Floating n) xs =
     (if n = 2 \<or> n = 4 \<or> n = 8 then
        (case bits_take bo (Unsigned n) (bitsize (Unsigned n)) xs of
           Inl e \<Rightarrow> Inl e
         | Inr (v, r) \<Rightarrow> Inr r)
      else Inl (static_assert ''No policy exists for this type''))"
| "dec bo (Resizable E) xs =
     (case bits_take bo size_t_type (bitsize size_t_type) xs of
        Inl e \<Rightarrow> Inl e
      | Inr (count, r) \<Rightarrow> dec_each bo E (nat count) r)"
| "dec bo (FixedArity n E) xs = dec_each bo E n xs"
| "dec bo (Composite L Ts) xs =
     (case member_offsets (class_of Ts) of
        None \<Rightarrow> Inl (static_assert ''member_pack_impl does not resolve'')
      | Some offsets \<Rightarrow>
          if offsets = [] then Inl (static_assert ''No policy exists for this type'')
          else dec_members bo offsets Ts xs)"
| "dec bo (Bits T w) xs =
     (if w > bitsize T then Inl (static_assert ''Instantiation of Bits is too large'')
      else (case bits_take bo T w xs of Inl e \<Rightarrow> Inl e | Inr (v, r) \<Rightarrow> Inr r))"
| "dec bo (Spare w) xs =
     (if w > bitsize size_t_type then Inl (static_assert ''Instantiation of Spare is too large'')
      else (case bits_take bo size_t_type w xs of Inl e \<Rightarrow> Inl e | Inr (v, r) \<Rightarrow> Inr r))"
| "dec_each bo E 0 xs = Inr xs"
| "dec_each bo E (Suc n) xs =
     (case dec bo E xs of Inl e \<Rightarrow> Inl e | Inr r \<Rightarrow> dec_each bo E n r)"
| "dec_members bo [] [] xs = Inr xs"
| "dec_members bo (offset # offsets) (T # Ts) xs =
     (case dec bo T xs of Inl e \<Rightarrow> Inl e | Inr r \<Rightarrow> dec_members bo offsets Ts r)"
| "dec_members bo _ _ xs = Inl type_mismatch"

text \<open>
  A run \<open>c\<close> of the decoder from the state \<open>s\<close> follows the description \<open>a\<close>: it fails
  with the same error, or it leaves the bits described and keeps invariant and byte
  order; \<open>sim\<close> relates the values returned as well.
\<close>

definition sim ::
  "BufferDeserializer \<Rightarrow> error + ('a \<times> BufferDeserializer) \<Rightarrow> error + ('a \<times> bool list) \<Rightarrow> bool" where
  "sim s c a =
     (case a of
        Inl e \<Rightarrow> c = Inl e
      | Inr (v, r) \<Rightarrow>
          (\<exists>s'. c = Inr (v, s') \<and> rbits s' = r \<and> des_inv s'
             \<and> des_byteOrder s' = des_byteOrder s))"

definition runs ::
  "BufferDeserializer \<Rightarrow> error + ('a \<times> BufferDeserializer) \<Rightarrow> error + bool list \<Rightarrow> bool" where
  "runs s c a =
     (case a of
        Inl e \<Rightarrow> c = Inl e
      | Inr r \<Rightarrow>
          (\<exists>v s'. c = Inr (v, s') \<and> rbits s' = r \<and> des_inv s'
             \<and> des_byteOrder s' = des_byteOrder s))"

text \<open>The same deserializer with the bytes \<open>sfx\<close> appended to its input.\<close>

definition more_input :: "uint8_t list \<Rightarrow> BufferDeserializer \<Rightarrow> BufferDeserializer" where
  "more_input sfx s = s\<lparr>buffer := buffer s @ sfx\<rparr>"

subsection \<open>The bits of a flushed encoding against the bits the decoder expects\<close>

text \<open>
  The decoder is to read the bits \<open>A\<close> and has the bits \<open>X\<close> before it. \<open>aligned\<close>: \<open>X\<close>
  is \<open>A\<close> with some zero bits inserted before its last bits, which are those of the
  final partial byte that \<^verbatim>\<open>flush\<close> emitted, and anything after. \<open>feeds\<close>: this, or the
  decoder has left the bits of the full bytes behind and \<open>X\<close> is long enough for what
  remains of \<open>A\<close>, fewer than 64 bits.
\<close>

definition aligned :: "bool list \<Rightarrow> bool list \<Rightarrow> bool" where
  "aligned A X \<longleftrightarrow>
     (\<exists>H Tl z W. A = H @ Tl \<and> X = H @ replicate z False @ Tl @ W \<and> length Tl + z \<le> 7)"

definition feeds :: "bool list \<Rightarrow> bool list \<Rightarrow> bool" where
  "feeds A X \<longleftrightarrow> aligned A X \<or> (length A < 64 \<and> length A \<le> length X)"

section \<open>Word lemmas and the invariant of the accumulator\<close>

lemma bit_times2:
  "bit (a * 2 :: 'a::len word) n \<longleftrightarrow> 1 \<le> n \<and> n < LENGTH('a) \<and> bit a (n - 1)"
proof -
  have "bit (a * 2) n = bit (push_bit 1 a) n"
    by (simp add: push_bit_eq_mult)
  also have "\<dots> \<longleftrightarrow> 1 \<le> n \<and> n < LENGTH('a) \<and> bit a (n - 1)"
    unfolding bit_push_bit_iff possible_bit_word by auto
  finally show ?thesis .
qed

lemma unat_bitsSet_Suc:
  fixes k :: uint8_t
  assumes "unat k < 8"
  shows "unat (k + 1) = Suc (unat k)" "(k + 1 = 8) = (unat k = 7)" "(k = 7) = (unat k = 7)"
proof -
  show a: "unat (k + 1) = Suc (unat k)"
    using assms by (simp add: unat_word_ariths)
  have "(k + 1 = 8) = (unat (k + 1) = unat (8 :: uint8_t))"
    by (simp only: word_unat_eq_iff)
  then show "(k + 1 = 8) = (unat k = 7)"
    using a by simp
  have "(k = 7) = (unat k = unat (7 :: uint8_t))"
    by (simp only: word_unat_eq_iff)
  then show "(k = 7) = (unat k = 7)"
    by simp
qed

lemma test_top_bit: "(data AND 9223372036854775808 \<noteq> 0) = bit (data :: size_t) 63"
proof -
  have "(data AND 2 ^ 63 = 0) = (\<not> bit data 63)"
    by (rule and_exp_eq_0_iff_not_bit)
  then show ?thesis by simp
qed

lemma test_low_bit: "(data AND 1 \<noteq> 0) = bit (data :: 'a::len word) 0"
  by (simp add: and_one_eq bit_0 mod_2_eq_odd)

lemma test_x80: "(b AND 128 \<noteq> 0) = bit (b :: uint8_t) 7"
proof -
  have "(b AND 2 ^ 7 = 0) = (\<not> bit b 7)"
    by (rule and_exp_eq_0_iff_not_bit)
  then show ?thesis by simp
qed

lemma bit_x80: "bit (128 :: uint8_t) i \<longleftrightarrow> i = 7"
proof -
  have "bit (2 ^ 7 :: uint8_t) i \<longleftrightarrow> i = 7"
    unfolding bit_exp_iff by (auto simp: possible_bit_word)
  then show ?thesis by simp
qed

lemma bit_top64: "bit (9223372036854775808 :: size_t) i \<longleftrightarrow> i = 63"
proof -
  have "bit (2 ^ 63 :: size_t) i \<longleftrightarrow> i = 63"
    unfolding bit_exp_iff by (auto simp: possible_bit_word)
  then show ?thesis by simp
qed

lemma bit_one_word: "bit (1 :: 'a::len word) i \<longleftrightarrow> i = 0"
  by (simp add: bit_1_iff)

lemma ser_step_order [simp]: "ser_byteOrder (snd (ser_step data s)) = ser_byteOrder s"
  by (simp add: ser_step_def Let_def putByte_def)

lemma ser_step_inv:
  assumes "ser_inv s"
  shows "ser_inv (snd (ser_step data s))"
proof -
  from assms have k: "unat (ser_bitsSet s) < 8"
    and b: "\<And>i. bit (ser_byte s) i \<Longrightarrow> occ (ser_byteOrder s) (unat (ser_bitsSet s)) i"
    by (auto simp: ser_inv_def)
  note ks = unat_bitsSet_Suc[OF k]
  show ?thesis
  proof (cases "unat (ser_bitsSet s) = 7")
    case True
    then show ?thesis
      by (simp add: ser_inv_def ser_step_def Let_def putByte_def ks(3))
  next
    case False
    with k have k6: "unat (ser_bitsSet s) < 7" by simp
    show ?thesis
    proof (cases "ser_byteOrder s")
      case MsbFirst
      have h: "occ MsbFirst (Suc (unat (ser_bitsSet s))) i"
        if "bit (x * 2) i" "x = ser_byte s \<or> x = ser_byte s OR 1" for i x
        using that b[of "i - 1"] unfolding MsbFirst bit_times2 occ_def
        by (auto simp: bit_or_iff bit_one_word; arith)
      from False k6 MsbFirst h[of "ser_byte s"] h[of "ser_byte s OR 1"] show ?thesis
        by (simp add: ser_inv_def ser_step_def Let_def ks(1,3))
    next
      case LsbFirst
      have h: "occ LsbFirst (Suc (unat (ser_bitsSet s))) i"
        if "bit (drop_bit 1 (ser_byte s OR c)) i" "c = 0 \<or> c = 128" for i c
      proof -
        from that(1) have "bit (ser_byte s) (Suc i) \<or> bit c (Suc i)"
          by (simp add: bit_drop_bit_eq bit_or_iff)
        then show ?thesis
        proof
          assume "bit (ser_byte s) (Suc i)"
          from b[OF this] k6 show ?thesis
            by (simp add: LsbFirst occ_def)
        next
          assume "bit c (Suc i)"
          with that(2) have "bit (128 :: uint8_t) (Suc i)" by auto
          then have "Suc i = 7" by (simp only: bit_x80)
          then show ?thesis by (simp add: occ_def)
        qed
      qed
      from False k6 LsbFirst h[of 0] h[of 128] show ?thesis
        by (simp add: ser_inv_def ser_step_def Let_def ks(1,3))
    qed
  qed
qed

lemma ser_loop_order [simp]: "ser_byteOrder (ser_loop n data s) = ser_byteOrder s"
proof (induction n arbitrary: data s)
  case (Suc n)
  have "ser_byteOrder (snd (ser_step data s)) = ser_byteOrder s" by simp
  with Suc show ?case by (simp add: case_prod_beta)
qed simp

lemma ser_loop_inv: "ser_inv s \<Longrightarrow> ser_inv (ser_loop n data s)"
proof (induction n arbitrary: data s)
  case (Suc n)
  from Suc.prems have "ser_inv (snd (ser_step data s))" by (rule ser_step_inv)
  then show ?case by (simp add: case_prod_beta Suc.IH)
qed simp

lemma flush_inv: "ser_inv s \<Longrightarrow> ser_inv (flush s)"
  by (auto simp: ser_inv_def flush_def putByte_def)

text \<open>
  The first iteration after the constructor fetches a byte before it tests one: the
  content of \<^verbatim>\<open>byte_\<close>, which the constructor leaves uninitialized, has no influence.
\<close>

lemma des_step_fresh_byte:
  "des_bitsLeft s = 0 \<Longrightarrow> des_step dm (s\<lparr>des_byte := b\<rparr>) = des_step dm s"
  by (cases "buffer s") (simp_all add: des_step_def getByte_def Let_def)

section \<open>The decomposition of an aggregate\<close>

lemma member_pack_impl_le:
  "1 \<le> k \<Longrightarrow> k \<le> n \<Longrightarrow> member_pack_impl (\<lambda>j. j \<le> n) k = Some n"
proof (induction "n - k" arbitrary: k rule: less_induct)
  case less
  show ?case
  proof (cases "2 * k \<le> n")
    case True
    with less.prems have "member_pack_impl (\<lambda>j. j \<le> n) (2 * k) = Some n"
      by (intro less.hyps) auto
    with True less.prems show ?thesis
      by (subst member_pack_impl.simps) auto
  next
    case False
    show ?thesis
    proof (cases "k + 1 \<le> n")
      case True
      with less.prems have "member_pack_impl (\<lambda>j. j \<le> n) (k + 1) = Some n"
        by (intro less.hyps) auto
      with True False less.prems show ?thesis
        by (subst member_pack_impl.simps) auto
    next
      case F2: False
      with less.prems have "k = n" by simp
      with False F2 show ?thesis
        by (subst member_pack_impl.simps) auto
    qed
  qed
qed

lemma member_count_aggregate:
  assumes "is_class T" "is_standard_layout T"
  shows "member_count T = Some (length (members T))"
proof (cases "members T = []")
  case True
  then show ?thesis by (simp add: member_count_def is_empty_def)
next
  case False
  then have "1 \<le> length (members T)" by (cases "members T") auto
  then have "member_pack_impl (\<lambda>j. j \<le> length (members T)) 1 = Some (length (members T))"
    by (intro member_pack_impl_le) auto
  moreover have "is_initializable T = (\<lambda>j. j \<le> length (members T))"
    by (rule ext) (simp add: is_initializable_def)
  ultimately show ?thesis
    using assms False by (simp add: member_count_def is_empty_def)
qed

text \<open>The count as a closed form, which evaluations use in place of the probing.\<close>

lemma member_count_closed [code]:
  "member_count T =
     (if \<not> is_empty T \<and> is_standard_layout T \<and> is_class T
      then Some (length (members T)) else Some 0)"
proof (cases "\<not> is_empty T \<and> is_standard_layout T \<and> is_class T")
  case True
  then show ?thesis by (simp add: member_count_aggregate)
next
  case False
  then show ?thesis by (auto simp: member_count_def)
qed

lemma length_member_offsets_impl [simp]: "length (member_offsets_impl base ms) = length ms"
  by (induction base ms rule: member_offsets_impl.induct) (simp_all add: Let_def)

text \<open>
  For a class of the model the probing finds every member, and the member policy works
  with one computed offset for each.
\<close>

lemma member_offsets_class_of:
  "member_offsets (class_of Ts)
     = Some (member_offsets_impl 0 (map (\<lambda>T. (sizeof_ty T, alignof_ty T)) Ts))"
proof -
  have "member_count (class_of Ts) = Some (length (members (class_of Ts)))"
    by (rule member_count_aggregate) (simp_all add: class_of_def)
  then show ?thesis
    by (simp add: member_offsets_def class_of_def)
qed

lemma member_offsets_length:
  "member_offsets (class_of Ts) = Some offsets \<Longrightarrow> length offsets = length Ts"
  by (auto simp: member_offsets_class_of)

section \<open>The tests of the repository\<close>

text \<open>
  The expectations of \<^verbatim>\<open>src/test.cpp\<close> that concern encoding and decoding, evaluated on
  the embedding: \<^verbatim>\<open>serialize.trio_lsb\<close> and \<^verbatim>\<open>serialize.trio_msb\<close>,
  \<^verbatim>\<open>deserialize.uint32_msb\<close> and \<^verbatim>\<open>deserialize.uint32_lsb\<close>, \<^verbatim>\<open>deserialize.int8\<close>,
  \<^verbatim>\<open>roundtrip.flags\<close>, and \<^verbatim>\<open>roundtrip.float\<close> (\<open>0xBFA00000\<close> is the bit pattern of
  \<^verbatim>\<open>-1.25f\<close>).
\<close>

lemma class_of_Trio:
  "class_of [Integral (Unsigned 4), Integral Bool, Integral (Signed 1)] = Trio"
  by (simp add: class_of_def Trio_def)

lemma test_serialize_trio:
  "serialize Trio_type (Fields [(0, Scalar 0x12345678), (4, Scalar 1), (5, Scalar 0)]) LsbFirst
     = Inr [0x78, 0x56, 0x34, 0x12, 0x01, 0x00] \<and>
   serialize Trio_type (Fields [(0, Scalar 0x12345678), (4, Scalar 1), (5, Scalar 0)]) MsbFirst
     = Inr [0x12, 0x34, 0x56, 0x78, 0x01, 0x00]"
  by code_simp

lemma test_deserialize_uint32:
  "deserialize (Integral (Unsigned 4)) [0x12, 0x34, 0x56, 0x78] MsbFirst
     = Inr (Scalar 0x12345678) \<and>
   deserialize (Integral (Unsigned 4)) [0x12, 0x34, 0x56, 0x78] LsbFirst
     = Inr (Scalar 0x78563412)"
  by code_simp

lemma test_deserialize_int8:
  "deserialize (Integral (Signed 1)) [0xFB] MsbFirst = Inr (Scalar (- 5))"
  by code_simp

lemma test_roundtrip_flags:
  "serialize Flags (Fields [(0, Unit), (1, Scalar 1), (2, Scalar 2)]) MsbFirst = Inr [0x06] \<and>
   deserialize_into Flags (default_val Flags) [0x06] MsbFirst
     = Inr (Fields [(0, Unit), (1, Scalar 1), (2, Scalar 2)])"
  by code_simp

lemma test_roundtrip_float:
  "serialize (Floating 4) (Scalar 0xBFA00000) MsbFirst = Inr [0xBF, 0xA0, 0x00, 0x00] \<and>
   deserialize_into (Floating 4) (Scalar 0) [0xBF, 0xA0, 0x00, 0x00] MsbFirst
     = Inr (Scalar 0xBFA00000)"
  by code_simp

text \<open>
  Decoding into the class \<^verbatim>\<open>Al\<close> writes the second value into the padding at offset 1 and
  leaves the member at offset 4 as it was.
\<close>

lemma deserialize_writes_padding:
  "deserialize Al [7, 9] MsbFirst = Inr (Fields [(0, Scalar 7), (4, Scalar 0), (1, Scalar 9)])"
  by code_simp

section \<open>Flush\<close>

text \<open>
  \<^verbatim>\<open>flush\<close> appends a byte only when bits are pending, and then exactly one, the
  accumulator; it leaves no bits pending, so a second \<^verbatim>\<open>flush\<close> changes nothing.
\<close>

lemma flush_empty: "ser_bitsSet s = 0 \<Longrightarrow> flush s = s"
  by (simp add: flush_def)

lemma flush_pending: "ser_bitsSet s \<noteq> 0 \<Longrightarrow> bytes (flush s) = bytes s @ [ser_byte s]"
  by (simp add: flush_def putByte_def)

lemma flush_twice: "flush (flush s) = flush s"
  by (simp add: flush_def putByte_def)

text \<open>
  C3. With the most significant bit first, a serializer that has been given the three
  bits 101 holds a partial byte. The byte with these bits first and the remaining
  positions zero is \<open>0xA0\<close>: the serializer itself emits it when the five zero bits are
  given, and the decoder reads 101 back from it. \<^verbatim>\<open>flush\<close> emits \<open>0x0A\<close> instead, the
  accumulator as the loop's last shift left it, from which the decoder reads 000.
\<close>

theorem flush_misplaces_partial_byte:
  "map_sum id (\<lambda>s. bytes (flush s))
     (give (Unsigned 1) 5 3 (DynamicSerializer_init MsbFirst)) = Inr [0x0A] \<and>
   (case give (Unsigned 1) 5 3 (DynamicSerializer_init MsbFirst) of
      Inl e \<Rightarrow> Inl e
    | Inr s \<Rightarrow> map_sum id bytes (give (Unsigned 1) 0 5 s)) = Inr [0xA0] \<and>
   map_sum id fst (takeT (Unsigned 1) 3 (BufferDeserializer_init [0xA0] MsbFirst)) = Inr 5 \<and>
   map_sum id fst (takeT (Unsigned 1) 3 (BufferDeserializer_init [0x0A] MsbFirst)) = Inr 0"
  by code_simp

section \<open>The bit-packed composite of the tests\<close>

text \<open>
  C4. The composite of a 4-bit \<^verbatim>\<open>Spare\<close> followed by two 2-bit \<^verbatim>\<open>Bits\<close> fields holding
  1 and 2, serialized with \<open>LsbFirst\<close>, is the single byte \<open>0x90\<close>, binary 10010000.
\<close>

theorem flags_lsb_byte:
  "serialize Flags (Fields [(0, Unit), (1, Scalar 1), (2, Scalar 2)]) LsbFirst = Inr [0x90]"
  by code_simp

section \<open>Validation of the requested width\<close>

lemma des_step_Inl:
  "des_step dm s = Inl e \<Longrightarrow> e = out_of_range ''Buffer deserializer out of range''"
  by (auto simp: des_step_def getByte_def Let_def split: if_splits list.splits sum.splits)

lemma des_loop_Inl:
  "des_loop n dm s = Inl e \<Longrightarrow> e = out_of_range ''Buffer deserializer out of range''"
proof (induction n arbitrary: dm s)
  case (Suc n)
  then show ?case
    by (auto split: sum.splits dest: des_step_Inl)
qed simp

text \<open>
  C5. \<^verbatim>\<open>give\<close> and \<^verbatim>\<open>take\<close> with destination type \<open>T\<close> and width \<open>bits\<close>: a width above
  the bit size of \<open>T\<close>, a type wider than \<^verbatim>\<open>size_t\<close>, and a width of zero each raise
  \<^verbatim>\<open>std::invalid_argument\<close> with a message of their own, before any bit is transferred
  (no state is returned); the first condition that holds, in this order, decides the
  message. In every other case \<^verbatim>\<open>give\<close> runs \<^verbatim>\<open>impl\<close> and \<^verbatim>\<open>take\<close> raises no
  \<^verbatim>\<open>std::invalid_argument\<close>.
\<close>

theorem give_take_validation:
  "(bits > bitsize T \<longrightarrow>
      give T data bits s = Inl (invalid_argument
        ''Attempting to invoke serializer with bit size exceeding given type'') \<and>
      takeT T bits d = Inl (invalid_argument
        ''Attempting to invoke deserializer with bit size exceeding given type'')) \<and>
   (bits \<le> bitsize T \<and> sizeof T > 8 \<longrightarrow>
      give T data bits s = Inl (invalid_argument
        ''Attempting to invoke serializer with bit size exceeding platform support'') \<and>
      takeT T bits d = Inl (invalid_argument
        ''Attempting to invoke deserializer with bit size exceeding platform support'')) \<and>
   (bits = 0 \<and> sizeof T \<le> 8 \<longrightarrow>
      give T data bits s = Inl (invalid_argument
        ''Attempting to invoke serializer with no bits'') \<and>
      takeT T bits d = Inl (invalid_argument
        ''Attempting to invoke deserializer with no bits'')) \<and>
   (0 < bits \<and> bits \<le> bitsize T \<and> sizeof T \<le> 8 \<longrightarrow>
      give T data bits s = Inr (ser_impl (word_of_int data) bits s) \<and>
      (\<forall>msg. takeT T bits d \<noteq> Inl (invalid_argument msg)))"
proof -
  have "takeT T bits d \<noteq> Inl (invalid_argument msg)"
    if "0 < bits" "bits \<le> bitsize T" "sizeof T \<le> 8" for msg
  proof (cases "des_loop bits (0, - 1) d")
    case (Inl e)
    then have "e = out_of_range ''Buffer deserializer out of range''"
      by (rule des_loop_Inl)
    with Inl that show ?thesis
      by (simp add: takeT_def des_impl_def)
  next
    case (Inr r)
    with that show ?thesis
      by (simp add: takeT_def des_impl_def Let_def split: prod.splits)
  qed
  then show ?thesis
    by (simp add: give_def takeT_def)
qed

theorem give_take_validation_witness:
  "(9 :: nat) > bitsize (Unsigned 1) \<and>
   give (Unsigned 1) 5 9 (DynamicSerializer_init MsbFirst) = Inl (invalid_argument
     ''Attempting to invoke serializer with bit size exceeding given type'') \<and>
   takeT (Unsigned 1) 9 (BufferDeserializer_init [1, 2] MsbFirst) = Inl (invalid_argument
     ''Attempting to invoke deserializer with bit size exceeding given type'') \<and>
   (8 :: nat) \<le> bitsize (Unsigned 16) \<and> sizeof (Unsigned 16) > 8 \<and>
   give (Unsigned 16) 5 8 (DynamicSerializer_init MsbFirst) = Inl (invalid_argument
     ''Attempting to invoke serializer with bit size exceeding platform support'') \<and>
   takeT (Unsigned 16) 8 (BufferDeserializer_init [1, 2] MsbFirst) = Inl (invalid_argument
     ''Attempting to invoke deserializer with bit size exceeding platform support'') \<and>
   sizeof (Unsigned 1) \<le> 8 \<and>
   give (Unsigned 1) 5 0 (DynamicSerializer_init MsbFirst) = Inl (invalid_argument
     ''Attempting to invoke serializer with no bits'') \<and>
   takeT (Unsigned 1) 0 (BufferDeserializer_init [1, 2] MsbFirst) = Inl (invalid_argument
     ''Attempting to invoke deserializer with no bits'') \<and>
   (8 :: nat) \<le> bitsize (Unsigned 1) \<and>
   give (Unsigned 1) 5 8 (DynamicSerializer_init MsbFirst)
     = Inr (ser_impl 5 8 (DynamicSerializer_init MsbFirst)) \<and>
   (\<forall>msg. takeT (Unsigned 1) 8 (BufferDeserializer_init [1, 2] MsbFirst)
     \<noteq> Inl (invalid_argument msg))"
  using
    give_take_validation[where bits=9 and T="Unsigned 1" and data=5
      and s="DynamicSerializer_init MsbFirst" and d="BufferDeserializer_init [1, 2] MsbFirst"]
    give_take_validation[where bits=8 and T="Unsigned 16" and data=5
      and s="DynamicSerializer_init MsbFirst" and d="BufferDeserializer_init [1, 2] MsbFirst"]
    give_take_validation[where bits=0 and T="Unsigned 1" and data=5
      and s="DynamicSerializer_init MsbFirst" and d="BufferDeserializer_init [1, 2] MsbFirst"]
    give_take_validation[where bits=8 and T="Unsigned 1" and data=5
      and s="DynamicSerializer_init MsbFirst" and d="BufferDeserializer_init [1, 2] MsbFirst"]
  by (simp add: bitsize_def)

section \<open>Exhaustion of the input\<close>

lemma des_loop_exhausted:
  "unat (des_bitsLeft s) + 8 * length (buffer s) < n \<Longrightarrow>
   des_loop n dm s = Inl (out_of_range ''Buffer deserializer out of range'')"
proof (induction n arbitrary: dm s)
  case 0
  then show ?case by simp
next
  case (Suc n)
  show ?case
  proof (cases "des_bitsLeft s = 0")
    case True
    show ?thesis
    proof (cases "buffer s")
      case Nil
      with True show ?thesis by (simp add: des_step_def getByte_def Let_def)
    next
      case (Cons b bs)
      with True Suc.prems show ?thesis
        by (simp add: des_step_def getByte_def Let_def Suc.IH)
    qed
  next
    case False
    then have "unat (des_bitsLeft s - 1) = unat (des_bitsLeft s) - 1"
      by (metis unat_minus_one)
    moreover from False have "unat (des_bitsLeft s) \<noteq> 0"
      by (simp add: unat_eq_0)
    ultimately show ?thesis using False Suc.prems
      by (simp add: des_step_def Let_def Suc.IH)
  qed
qed

lemma pull_within:
  "n \<le> length (buffer s) \<Longrightarrow>
   pull n s = Inr (List.take n (buffer s), s\<lparr>buffer := drop n (buffer s)\<rparr>)"
proof (induction n arbitrary: s)
  case 0
  then show ?case by simp
next
  case (Suc n)
  then obtain b bs where bs: "buffer s = b # bs"
    by (cases "buffer s") auto
  with Suc.prems have "n \<le> length (buffer (s\<lparr>buffer := bs\<rparr>))" by simp
  from Suc.IH[OF this] bs show ?case
    by (simp add: getByte_def)
qed

lemma pull_beyond:
  "length (buffer s) < n \<Longrightarrow> pull n s = Inl (out_of_range ''Buffer deserializer out of range'')"
proof (induction n arbitrary: s)
  case 0
  then show ?case by simp
next
  case (Suc n)
  show ?case
  proof (cases "buffer s")
    case Nil
    then show ?thesis by (simp add: getByte_def)
  next
    case (Cons b bs)
    with Suc.prems have "length (buffer (s\<lparr>buffer := bs\<rparr>)) < n" by simp
    from Suc.IH[OF this] Cons show ?thesis
      by (simp add: getByte_def)
  qed
qed

text \<open>
  C6. Over an input of \<open>N\<close> bytes the first \<open>N\<close> pulls return the bytes of the input, and
  every further pull raises \<^verbatim>\<open>std::out_of_range\<close> instead of returning a byte; a \<^verbatim>\<open>take\<close>
  of a valid width that asks for more bits than the input holds raises it too, and so
  does decoding a 4-byte integer from a 3-byte input, in either byte order.
\<close>

theorem buffer_exhaustion:
  "(n \<le> length (buffer s) \<longrightarrow>
      pull n s = Inr (List.take n (buffer s), s\<lparr>buffer := drop n (buffer s)\<rparr>)) \<and>
   (length (buffer s) < n \<longrightarrow>
      pull n s = Inl (out_of_range ''Buffer deserializer out of range'')) \<and>
   (0 < bits \<and> bits \<le> bitsize T \<and> sizeof T \<le> 8 \<and>
    unat (des_bitsLeft s) + 8 * length (buffer s) < bits \<longrightarrow>
      takeT T bits s = Inl (out_of_range ''Buffer deserializer out of range'')) \<and>
   (sizeof T = 4 \<and> length data = 3 \<longrightarrow>
      deserialize (Integral T) data byteOrder
        = Inl (out_of_range ''Buffer deserializer out of range''))"
proof -
  have "deserialize (Integral T) data byteOrder
        = Inl (out_of_range ''Buffer deserializer out of range'')"
    if "sizeof T = 4" "length data = 3"
  proof -
    let ?s = "BufferDeserializer_init data byteOrder"
    from that have "unat (des_bitsLeft ?s) + 8 * length (buffer ?s) < 32"
      by (simp add: BufferDeserializer_init_def)
    from des_loop_exhausted[OF this] that show ?thesis
      by (simp add: deserialize_def deserialize_into_def takeT_def bitsize_def des_impl_def)
  qed
  then show ?thesis
    by (simp add: pull_within pull_beyond takeT_def des_impl_def des_loop_exhausted)
qed

theorem buffer_exhaustion_witness:
  "pull 3 (BufferDeserializer_init [1, 2, 3] MsbFirst)
     = Inr ([1, 2, 3], (BufferDeserializer_init [1, 2, 3] MsbFirst)\<lparr>buffer := []\<rparr>) \<and>
   pull 4 (BufferDeserializer_init [1, 2, 3] MsbFirst)
     = Inl (out_of_range ''Buffer deserializer out of range'') \<and>
   takeT (Unsigned 4) 32 (BufferDeserializer_init [1, 2, 3] MsbFirst)
     = Inl (out_of_range ''Buffer deserializer out of range'') \<and>
   sizeof (Unsigned 4) = 4 \<and> length [1 :: uint8_t, 2, 3] = 3 \<and>
   deserialize (Integral (Unsigned 4)) [1, 2, 3] LsbFirst
     = Inl (out_of_range ''Buffer deserializer out of range'')"
  using
    buffer_exhaustion[where n=3 and s="BufferDeserializer_init [1, 2, 3] MsbFirst" and bits=32
      and T="Unsigned 4" and data="[1, 2, 3]" and byteOrder=LsbFirst]
    buffer_exhaustion[where n=4 and s="BufferDeserializer_init [1, 2, 3] MsbFirst" and bits=32
      and T="Unsigned 4" and data="[1, 2, 3]" and byteOrder=LsbFirst]
  by (simp add: BufferDeserializer_init_def bitsize_def)

section \<open>Field count and offsets\<close>

text \<open>
  C8. For the composite with members \<^verbatim>\<open>(uint32_t, bool, char)\<close>, the 32-bit member aligned
  to 4, the decomposition reports 3 members at the byte offsets 0, 4 and 5.
\<close>

theorem trio_decomposition:
  "member_count Trio = Some 3 \<and> member_offsets Trio = Some [0, 4, 5]"
proof -
  have "member_count Trio = Some (length (members Trio))"
    by (rule member_count_aggregate) (simp_all add: Trio_def)
  then have c: "member_count Trio = Some 3"
    by (simp add: Trio_def)
  then show ?thesis
    by (simp add: member_offsets_def Trio_def)
qed

section \<open>Determinism\<close>

text \<open>
  C9. Two objects of the class \<^verbatim>\<open>Al\<close> with the same members, 1 and 2, and different
  padding serialize to different bytes: the offset computed for the second member is 1,
  where the padding lies, and the member at offset 4 is never read.
\<close>

theorem serialize_reads_padding:
  "member_values Al (Fields [(0, Scalar 1), (1, Scalar 0xEE), (4, Scalar 2)])
     = member_values Al (Fields [(0, Scalar 1), (1, Scalar 0), (4, Scalar 2)]) \<and>
   serialize Al (Fields [(0, Scalar 1), (1, Scalar 0xEE), (4, Scalar 2)]) MsbFirst
     = Inr [0x01, 0xEE] \<and>
   serialize Al (Fields [(0, Scalar 1), (1, Scalar 0), (4, Scalar 2)]) MsbFirst
     = Inr [0x01, 0x00]"
  by code_simp

section \<open>Where the round trip and the sign extension fail\<close>

text \<open>
  C2. With the most significant bit first, \<^verbatim>\<open>take<int8_t>(5)\<close> on the input byte
  \<open>0x28\<close> transfers the bits 00101, whose top bit is 0; the unsigned read of the same
  bits is 5, but with \<^verbatim>\<open>signExtend\<close> set the mask of the bits above the width is or-ed
  in regardless of the top bit and the call returns -27.
\<close>

theorem take_sign_fill_msb:
  "map_sum id fst (takeT (Unsigned 1) 5 (BufferDeserializer_init [0x28] MsbFirst)) = Inr 5 \<and>
   map_sum id fst (takeT (Signed 1) 5 (BufferDeserializer_init [0x28] MsbFirst)) = Inr (- 27)"
  by code_simp

text \<open>
  C1. With the least significant bit first, the 64-bit signed integer 5 serializes to
  its eight bytes, and deserializing these bytes under the same order yields -1: after
  64 right shifts the sign mask is 0, its complement is all ones, and it is or-ed into
  the data.
\<close>

theorem roundtrip_fails_int64_lsb:
  "serialize (Integral (Signed 8)) (Scalar 5) LsbFirst = Inr [5, 0, 0, 0, 0, 0, 0, 0] \<and>
   deserialize (Integral (Signed 8)) [5, 0, 0, 0, 0, 0, 0, 0] LsbFirst = Inr (Scalar (- 1))"
  by code_simp

section \<open>The encoder appends the bits it is given\<close>

lemma length_data_bits [simp]: "length (data_bits byteOrder n w) = n"
  by (simp add: data_bits_def)

lemma length_pending [simp]: "k \<le> 7 \<Longrightarrow> length (pending byteOrder k b) = k"
  by (simp add: pending_def)

lemma nth_data_bits:
  "i < n \<Longrightarrow> data_bits byteOrder n w ! i = bit w (if byteOrder = MsbFirst then n - 1 - i else i)"
  by (simp add: data_bits_def rev_nth)

lemma nth_pending:
  "i < k \<Longrightarrow> k \<le> 7 \<Longrightarrow>
   pending byteOrder k b ! i = bit b (if byteOrder = MsbFirst then k - i else 7 - k + i)"
  by (simp add: pending_def rev_nth Suc_diff_Suc del: upt_Suc)

lemma pending_step_msb:
  assumes k: "k < 7" and b0: "\<not> bit b 0" and c: "x = b \<or> x = b OR 1"
  shows "pending MsbFirst (Suc k) (x * 2) = pending MsbFirst k b @ [x \<noteq> b]"
proof (rule nth_equalityI)
  show "length (pending MsbFirst (Suc k) (x * 2)) = length (pending MsbFirst k b @ [x \<noteq> b])"
    using k by simp
next
  fix i assume "i < length (pending MsbFirst (Suc k) (x * 2))"
  with k have i: "i < Suc k" by simp
  have x0: "bit x 0 \<longleftrightarrow> x \<noteq> b"
    using c b0 by (auto simp: bit_or_iff bit_one_word)
  have xj: "bit x j \<longleftrightarrow> bit b j" if "0 < j" for j
    using c that by (auto simp: bit_or_iff bit_one_word)
  show "pending MsbFirst (Suc k) (x * 2) ! i = (pending MsbFirst k b @ [x \<noteq> b]) ! i"
  proof (cases "i = k")
    case True
    with k show ?thesis
      by (simp add: nth_pending nth_append bit_times2 x0)
  next
    case False
    with i have ik: "i < k" by simp
    with k have "k - i < 7" "0 < k - i" by simp_all
    with k ik show ?thesis
      by (simp add: nth_pending nth_append bit_times2 xj Suc_diff_le)
  qed
qed

lemma pending_full_msb:
  assumes b0: "\<not> bit b 0" and c: "x = b \<or> x = b OR 1"
  shows "data_bits MsbFirst 8 x = pending MsbFirst 7 b @ [x \<noteq> b]"
proof (rule nth_equalityI)
  show "length (data_bits MsbFirst 8 x) = length (pending MsbFirst 7 b @ [x \<noteq> b])"
    by simp
next
  fix i assume "i < length (data_bits MsbFirst 8 x)"
  then have i: "i < 8" by simp
  have x0: "bit x 0 \<longleftrightarrow> x \<noteq> b"
    using c b0 by (auto simp: bit_or_iff bit_one_word)
  have xj: "bit x j \<longleftrightarrow> bit b j" if "0 < j" for j
    using c that by (auto simp: bit_or_iff bit_one_word)
  show "data_bits MsbFirst 8 x ! i = (pending MsbFirst 7 b @ [x \<noteq> b]) ! i"
  proof (cases "i = 7")
    case True
    then show ?thesis
      by (simp add: nth_data_bits nth_append x0)
  next
    case False
    with i have "i < 7" by simp
    then show ?thesis
      by (simp add: nth_data_bits nth_pending nth_append xj)
  qed
qed

lemma bit_or_x80: "bit (b OR 128 :: uint8_t) j \<longleftrightarrow> bit b j \<or> j = 7"
  by (simp only: bit_or_iff bit_x80)

lemma pending_step_lsb:
  assumes k: "k < 7" and b7: "\<not> bit b 7" and c: "x = b \<or> x = b OR 128"
  shows "pending LsbFirst (Suc k) (drop_bit 1 x) = pending LsbFirst k b @ [x \<noteq> b]"
proof (rule nth_equalityI)
  show "length (pending LsbFirst (Suc k) (drop_bit 1 x)) = length (pending LsbFirst k b @ [x \<noteq> b])"
    using k by simp
next
  fix i assume "i < length (pending LsbFirst (Suc k) (drop_bit 1 x))"
  with k have i: "i < Suc k" by simp
  have x7: "bit x 7 \<longleftrightarrow> x \<noteq> b"
    using c b7 by (auto simp only: bit_or_x80)
  have xj: "bit x j \<longleftrightarrow> bit b j" if "j \<noteq> 7" for j
    using c that by (auto simp only: bit_or_x80)
  show "pending LsbFirst (Suc k) (drop_bit 1 x) ! i = (pending LsbFirst k b @ [x \<noteq> b]) ! i"
  proof (cases "i = k")
    case True
    with k have "Suc (7 - Suc k + k) = 7" by simp
    with True k show ?thesis
      by (simp add: nth_pending nth_append bit_drop_bit_eq x7)
  next
    case False
    with i have ik: "i < k" by simp
    with k have "Suc (7 - Suc k + i) = 7 - k + i" "7 - k + i \<noteq> 7" by simp_all
    with k ik show ?thesis
      by (simp add: nth_pending nth_append bit_drop_bit_eq xj)
  qed
qed

lemma pending_full_lsb:
  assumes b7: "\<not> bit b 7" and c: "x = b \<or> x = b OR 128"
  shows "data_bits LsbFirst 8 x = pending LsbFirst 7 b @ [x \<noteq> b]"
proof (rule nth_equalityI)
  show "length (data_bits LsbFirst 8 x) = length (pending LsbFirst 7 b @ [x \<noteq> b])"
    by simp
next
  fix i assume "i < length (data_bits LsbFirst 8 x)"
  then have i: "i < 8" by simp
  have x7: "bit x 7 \<longleftrightarrow> x \<noteq> b"
    using c b7 by (auto simp only: bit_or_x80)
  have xj: "bit x j \<longleftrightarrow> bit b j" if "j \<noteq> 7" for j
    using c that by (auto simp only: bit_or_x80)
  show "data_bits LsbFirst 8 x ! i = (pending LsbFirst 7 b @ [x \<noteq> b]) ! i"
  proof (cases "i = 7")
    case True
    then show ?thesis
      by (simp add: nth_data_bits nth_append x7)
  next
    case False
    with i have "i < 7" by simp
    then show ?thesis
      by (simp add: nth_data_bits nth_pending nth_append xj)
  qed
qed

lemma or_1_neq: "\<not> bit b 0 \<Longrightarrow> b OR 1 \<noteq> (b :: uint8_t)"
  by (metis bit_or_iff bit_one_word)

lemma or_x80_neq: "\<not> bit b 7 \<Longrightarrow> b OR 128 \<noteq> (b :: uint8_t)"
  by (metis bit_or_x80)

lemma pending_0 [simp]: "pending byteOrder 0 b = []"
  by (simp add: pending_def)

lemma pending_msb_cases:
  assumes "\<not> bit b 0"
  shows "k < 7 \<Longrightarrow> pending MsbFirst (Suc k) ((b OR 1) * 2) = pending MsbFirst k b @ [True]"
    and "k < 7 \<Longrightarrow> pending MsbFirst (Suc k) (b * 2) = pending MsbFirst k b @ [False]"
    and "data_bits MsbFirst 8 (b OR 1) = pending MsbFirst 7 b @ [True]"
    and "data_bits MsbFirst 8 b = pending MsbFirst 7 b @ [False]"
  using pending_step_msb[OF _ assms, of k "b OR 1"] pending_step_msb[OF _ assms, of k b]
    pending_full_msb[OF assms, of "b OR 1"] pending_full_msb[OF assms, of b] or_1_neq[OF assms]
  by simp_all

lemma pending_lsb_cases:
  assumes "\<not> bit b 7"
  shows "k < 7 \<Longrightarrow>
      pending LsbFirst (Suc k) (drop_bit (Suc 0) b OR 64) = pending LsbFirst k b @ [True]"
    and "k < 7 \<Longrightarrow> pending LsbFirst (Suc k) (drop_bit (Suc 0) b) = pending LsbFirst k b @ [False]"
    and "data_bits LsbFirst 8 (b OR 128) = pending LsbFirst 7 b @ [True]"
    and "data_bits LsbFirst 8 b = pending LsbFirst 7 b @ [False]"
  using pending_step_lsb[OF _ assms, of k "b OR 128"] pending_step_lsb[OF _ assms, of k b]
    pending_full_lsb[OF assms, of "b OR 128"] pending_full_lsb[OF assms, of b] or_x80_neq[OF assms]
  by simp_all

lemma ser_step_stream:
  assumes "ser_inv s"
  shows "stream (snd (ser_step data s))
           = stream s @ [bit data (if ser_byteOrder s = MsbFirst then 63 else 0)]"
proof -
  from assms have k: "unat (ser_bitsSet s) < 8"
    and b: "\<And>i. bit (ser_byte s) i \<Longrightarrow> occ (ser_byteOrder s) (unat (ser_bitsSet s)) i"
    by (auto simp: ser_inv_def)
  note ks = unat_bitsSet_Suc[OF k]
  show ?thesis
  proof (cases "ser_byteOrder s")
    case MsbFirst
    from b[of 0] have b0: "\<not> bit (ser_byte s) 0"
      by (auto simp: MsbFirst occ_def)
    note pc = pending_msb_cases[OF b0]
    show ?thesis
    proof (cases "unat (ser_bitsSet s) = 7")
      case True
      with MsbFirst show ?thesis
        by (simp add: stream_def ser_step_def Let_def putByte_def ks(3) test_top_bit pc(3,4))
    next
      case False
      with k have k6: "unat (ser_bitsSet s) < 7" by simp
      with False MsbFirst show ?thesis
        by (simp add: stream_def ser_step_def Let_def ks(1,3) test_top_bit pc(1,2)[OF k6])
    qed
  next
    case LsbFirst
    from b[of 7] have b7: "\<not> bit (ser_byte s) 7"
      by (auto simp: LsbFirst occ_def)
    note pc = pending_lsb_cases[OF b7]
    show ?thesis
    proof (cases "unat (ser_bitsSet s) = 7")
      case True
      with LsbFirst show ?thesis
        by (simp add: stream_def ser_step_def Let_def putByte_def ks(3) test_low_bit pc(3,4))
    next
      case False
      with k have k6: "unat (ser_bitsSet s) < 7" by simp
      with False LsbFirst show ?thesis
        by (simp add: stream_def ser_step_def Let_def ks(1,3) test_low_bit pc(1,2)[OF k6])
    qed
  qed
qed

lemma ser_step_fst:
  "fst (ser_step data s) = (if ser_byteOrder s = MsbFirst then data * 2 else drop_bit (Suc 0) data)"
  by (simp add: ser_step_def Let_def)

lemma ser_loop_stream:
  assumes "ser_inv s" "n \<le> 64"
  shows "stream (ser_loop n data s)
           = stream s @ map (\<lambda>j. bit data (if ser_byteOrder s = MsbFirst then 63 - j else j)) [0..<n]"
  using assms
proof (induction n arbitrary: data s)
  case 0
  then show ?case by simp
next
  case (Suc n)
  obtain data' s' where st: "ser_step data s = (data', s')" by (cases "ser_step data s")
  with ser_step_inv[OF Suc.prems(1), of data] ser_step_stream[OF Suc.prems(1), of data]
    ser_step_order[of data s] ser_step_fst[of data s]
  have inv': "ser_inv s'" and str: "stream s' = stream s @ [bit data (if ser_byteOrder s = MsbFirst then 63 else 0)]"
    and ord: "ser_byteOrder s' = ser_byteOrder s"
    and d': "data' = (if ser_byteOrder s = MsbFirst then data * 2 else drop_bit (Suc 0) data)"
    by simp_all
  from Suc.prems have n: "n \<le> 64" by simp
  have "map (\<lambda>j. bit data' (if ser_byteOrder s = MsbFirst then 63 - j else j)) [0..<n]
      = map (\<lambda>j. bit data (if ser_byteOrder s = MsbFirst then 63 - Suc j else Suc j)) [0..<n]"
  proof (rule map_cong[OF refl])
    fix j assume "j \<in> set [0..<n]"
    with Suc.prems have j: "j < 63" by simp
    then have "Suc (62 - j) = 63 - j" "63 - j < (64 :: nat)" by arith+
    with j show "bit data' (if ser_byteOrder s = MsbFirst then 63 - j else j)
        = bit data (if ser_byteOrder s = MsbFirst then 63 - Suc j else Suc j)"
      by (simp add: d' bit_times2 bit_drop_bit_eq)
  qed
  with Suc.IH[OF inv' n, of data'] str ord st show ?case
    by (simp add: map_upt_Suc del: upt_Suc)
qed

lemma ser_impl_stream:
  assumes "ser_inv s" "n \<le> 64"
  shows "stream (ser_impl data n s) = stream s @ data_bits (ser_byteOrder s) n data"
proof -
  have "map (\<lambda>j. bit (push_bit (64 - n) data) (63 - j)) [0..<n] = data_bits MsbFirst n data"
  proof (rule nth_equalityI)
    fix i assume "i < length (map (\<lambda>j. bit (push_bit (64 - n) data) (63 - j)) [0..<n])"
    then have i: "i < n" by simp
    with assms(2) have "63 - i - (64 - n) = n - 1 - i" "64 - n \<le> 63 - i" "63 - i < (64 :: nat)"
      by arith+
    with i show "map (\<lambda>j. bit (push_bit (64 - n) data) (63 - j)) [0..<n] ! i
        = data_bits MsbFirst n data ! i"
      by (simp add: nth_data_bits bit_push_bit_iff possible_bit_word)
  qed simp
  moreover have "map (\<lambda>j. bit data j) [0..<n] = data_bits LsbFirst n data"
    by (simp add: data_bits_def)
  ultimately show ?thesis
    using ser_loop_stream[OF assms] by (cases "ser_byteOrder s") (simp_all add: ser_impl_def)
qed

lemma ser_impl_inv: "ser_inv s \<Longrightarrow> ser_inv (ser_impl data n s)"
  by (simp add: ser_impl_def ser_loop_inv)

lemma ser_impl_order [simp]: "ser_byteOrder (ser_impl data n s) = ser_byteOrder s"
  by (simp add: ser_impl_def)

lemma give_stream:
  assumes "ser_inv s" "give T x n s = Inr s'"
  shows "stream s' = stream s @ data_bits (ser_byteOrder s) n (word_of_int x :: size_t)"
    and "ser_inv s'" and "ser_byteOrder s' = ser_byteOrder s"
proof -
  from assms(2) have n: "n \<le> 64" and s': "s' = ser_impl (word_of_int x) n s"
    by (auto simp: give_def bitsize_def split: if_splits)
  from ser_impl_stream[OF assms(1) n] ser_impl_inv[OF assms(1)] s'
  show "stream s' = stream s @ data_bits (ser_byteOrder s) n (word_of_int x :: size_t)"
    and "ser_inv s'" and "ser_byteOrder s' = ser_byteOrder s"
    by simp_all
qed

lemma give_emits: "ser_inv s \<Longrightarrow> emits s (give T x n s) (bits_give (ser_byteOrder s) T x n)"
proof -
  assume inv: "ser_inv s"
  show ?thesis
  proof (cases "give T x n s")
    case (Inl e)
    then show ?thesis
      by (auto simp: emits_def give_def bits_give_def split: if_splits)
  next
    case (Inr s')
    from give_stream[OF inv Inr] Inr show ?thesis
      by (auto simp: emits_def give_def bits_give_def split: if_splits)
  qed
qed

lemma emits_bind:
  assumes "emits s c a"
    and "\<And>s'. c = Inr s' \<Longrightarrow> ser_inv s' \<Longrightarrow> ser_byteOrder s' = ser_byteOrder s \<Longrightarrow>
           emits s' (f s') g"
  shows "emits s (case c of Inl e \<Rightarrow> Inl e | Inr s' \<Rightarrow> f s')
               (case a of Inl e \<Rightarrow> Inl e
                | Inr b \<Rightarrow> (case g of Inl e \<Rightarrow> Inl e | Inr bs \<Rightarrow> Inr (b @ bs)))"
proof (cases a)
  case (Inl e)
  with assms(1) show ?thesis by (simp add: emits_def)
next
  case (Inr b)
  with assms(1) obtain s' where s': "c = Inr s'" "stream s' = stream s @ b" "ser_inv s'"
    "ser_byteOrder s' = ser_byteOrder s"
    by (auto simp: emits_def)
  from assms(2)[OF s'(1,3,4)] s' Inr show ?thesis
    by (auto simp: emits_def split: sum.splits)
qed

text \<open>
  \<^verbatim>\<open>put\<close> appends the bits of \<open>enc\<close>, from every state that satisfies the invariant.
\<close>

lemma put_emits:
  "ser_inv s \<Longrightarrow> emits s (put T v s) (enc (ser_byteOrder s) T v)"
  "ser_inv s \<Longrightarrow> emits s (put_each E vs s) (enc_each (ser_byteOrder s) E vs)"
  "ser_inv s \<Longrightarrow> emits s (put_members cs Ts m s) (enc_members (ser_byteOrder s) cs Ts m)"
proof (induction T v s and E vs s and cs Ts m s rule: put_put_each_put_members.induct)
  case (1 T x s)
  then show ?case by (simp add: give_emits)
next
  case (2 U x s)
  then show ?case by (simp add: give_emits)
next
  case (3 n x s)
  show ?case
  proof (cases "n = 2 \<or> n = 4 \<or> n = 8")
    case True
    with give_emits[OF "3.prems", of "Unsigned n" x "bitsize (Unsigned n)"] show ?thesis
      by (simp only: put.simps enc.simps if_True)
  next
    case False
    then show ?thesis by (simp add: emits_def)
  qed
next
  case (4 E xs s)
  have "emits s
     (case give size_t_type (int (length xs)) (bitsize size_t_type) s of
        Inl e \<Rightarrow> Inl e | Inr s' \<Rightarrow> put_each E xs s')
     (case bits_give (ser_byteOrder s) size_t_type (int (length xs)) (bitsize size_t_type) of
        Inl e \<Rightarrow> Inl e
      | Inr c \<Rightarrow> (case enc_each (ser_byteOrder s) E xs of
                     Inl e \<Rightarrow> Inl e | Inr bs \<Rightarrow> Inr (c @ bs)))"
  proof (rule emits_bind[OF give_emits[OF "4.prems"]])
    fix s' assume "give size_t_type (int (length xs)) (bitsize size_t_type) s = Inr s'"
      "ser_inv s'" "ser_byteOrder s' = ser_byteOrder s"
    with "4.IH"[of s'] show "emits s' (put_each E xs s') (enc_each (ser_byteOrder s) E xs)"
      by simp
  qed
  then show ?case by simp
next
  case (5 n E xs s)
  then show ?case by (simp add: emits_def)
next
  case (6 L Ts m s)
  then show ?case by (simp add: emits_def member_offsets_class_of)
next
  case (7 T w x s)
  show ?case
  proof (cases "w > bitsize T")
    case True
    then show ?thesis by (simp add: emits_def)
  next
    case False
    with give_emits[OF "7.prems", of T x w] show ?thesis by simp
  qed
next
  case (8 w s)
  show ?case
  proof (cases "w > bitsize size_t_type")
    case True
    then show ?thesis by (simp add: emits_def)
  next
    case False
    with give_emits[OF "8.prems", of size_t_type 0 w] show ?thesis by simp
  qed
next
  case (10 E s)
  then show ?case by (simp add: emits_def)
next
  case (11 E x xs s)
  have "emits s
     (case put E x s of Inl e \<Rightarrow> Inl e | Inr s' \<Rightarrow> put_each E xs s')
     (case enc (ser_byteOrder s) E x of
        Inl e \<Rightarrow> Inl e
      | Inr b \<Rightarrow> (case enc_each (ser_byteOrder s) E xs of
                     Inl e \<Rightarrow> Inl e | Inr bs \<Rightarrow> Inr (b @ bs)))"
  proof (rule emits_bind)
    from 11 show "emits s (put E x s) (enc (ser_byteOrder s) E x)" by simp
  next
    fix s' assume "put E x s = Inr s'" "ser_inv s'" "ser_byteOrder s' = ser_byteOrder s"
    with "11.IH"(2)[of s'] show "emits s' (put_each E xs s') (enc_each (ser_byteOrder s) E xs)"
      by simp
  qed
  then show ?case by simp
next
  case (12 m s)
  then show ?case by (simp add: emits_def)
next
  case (13 c cs T Ts m s)
  show ?case
  proof (cases "map_of m c")
    case None
    then show ?thesis by (simp add: emits_def)
  next
    case (Some x)
    have "emits s
       (case put T x s of Inl e \<Rightarrow> Inl e | Inr s' \<Rightarrow> put_members cs Ts m s')
       (case enc (ser_byteOrder s) T x of
          Inl e \<Rightarrow> Inl e
        | Inr b \<Rightarrow> (case enc_members (ser_byteOrder s) cs Ts m of
                       Inl e \<Rightarrow> Inl e | Inr bs \<Rightarrow> Inr (b @ bs)))"
    proof (rule emits_bind)
      from "13.IH"(1)[OF Some "13.prems"]
      show "emits s (put T x s) (enc (ser_byteOrder s) T x)" .
    next
      fix s' assume "put T x s = Inr s'" "ser_inv s'" "ser_byteOrder s' = ser_byteOrder s"
      with "13.IH"(2)[OF Some, of s']
      show "emits s' (put_members cs Ts m s') (enc_members (ser_byteOrder s) cs Ts m)"
        by simp
    qed
    with Some show ?thesis by simp
  qed
qed (simp_all add: emits_def)

section \<open>The decoder consumes the bits before it\<close>

lemma length_current [simp]: "l \<le> 7 \<Longrightarrow> length (current byteOrder l b) = l"
  by (simp add: current_def)

lemma current_0 [simp]: "current byteOrder 0 b = []"
  by (simp add: current_def)

lemma nth_current:
  "i < l \<Longrightarrow> l \<le> 7 \<Longrightarrow>
   current byteOrder l b ! i = bit b (if byteOrder = MsbFirst then 6 - i else Suc i)"
proof (cases byteOrder)
  case MsbFirst
  assume "i < l" "l \<le> 7"
  then have "7 - l + (l - Suc i) = 6 - i" by arith
  with \<open>i < l\<close> \<open>l \<le> 7\<close> MsbFirst show ?thesis
    by (simp add: current_def rev_nth del: upt_Suc)
next
  case LsbFirst
  assume "i < l" "l \<le> 7"
  with LsbFirst show ?thesis
    by (simp add: current_def del: upt_Suc)
qed

lemma current_fresh: "data_bits byteOrder 8 b = bit b (if byteOrder = MsbFirst then 7 else 0) # current byteOrder 7 b"
proof (rule nth_equalityI)
  fix i assume "i < length (data_bits byteOrder 8 b)"
  then have i: "i < 8" by simp
  show "data_bits byteOrder 8 b ! i
      = (bit b (if byteOrder = MsbFirst then 7 else 0) # current byteOrder 7 b) ! i"
  proof (cases i)
    case 0
    then show ?thesis by (simp add: nth_data_bits)
  next
    case (Suc j)
    with i have "j < 7" by simp
    then have "7 - Suc j = 6 - j" by arith
    with Suc \<open>j < 7\<close> show ?thesis by (simp add: nth_data_bits nth_current)
  qed
qed simp

lemma current_step:
  assumes "0 < l" "l \<le> 7"
  shows "current byteOrder l b
    = bit b (if byteOrder = MsbFirst then 6 else 1)
        # current byteOrder (l - 1) (if byteOrder = MsbFirst then b * 2 else drop_bit (Suc 0) b)"
proof (rule nth_equalityI)
  show "length (current byteOrder l b)
    = length (bit b (if byteOrder = MsbFirst then 6 else 1)
        # current byteOrder (l - 1) (if byteOrder = MsbFirst then b * 2 else drop_bit (Suc 0) b))"
    using assms by simp
next
  fix i assume "i < length (current byteOrder l b)"
  with assms have i: "i < l" by simp
  show "current byteOrder l b ! i
    = (bit b (if byteOrder = MsbFirst then 6 else 1)
        # current byteOrder (l - 1) (if byteOrder = MsbFirst then b * 2 else drop_bit (Suc 0) b)) ! i"
  proof (cases i)
    case 0
    with assms show ?thesis by (simp add: nth_current)
  next
    case (Suc j)
    with i assms have j: "j < l - 1" "l - 1 \<le> 7" "j < 6" by simp_all
    then have "Suc (5 - j) = 6 - j" "6 - j < (8 :: nat)" "6 - Suc j = 5 - j" by arith+
    with Suc i assms j show ?thesis
      by (simp add: nth_current bit_times2 bit_drop_bit_eq)
  qed
qed

lemma des_step_empty:
  assumes "des_inv s" "rbits s = []"
  shows "des_step dm s = Inl (out_of_range ''Buffer deserializer out of range'')"
proof -
  from assms have "length (current (des_byteOrder s) (unat (des_bitsLeft s)) (des_byte s)) = 0"
    by (simp add: rbits_def)
  with assms(1) have l: "unat (des_bitsLeft s) = 0"
    by (simp add: des_inv_def)
  then have z: "des_bitsLeft s = 0" by (simp add: unat_eq_0)
  have "buffer s = []"
  proof (cases "buffer s")
    case (Cons b bs)
    with assms(2) show ?thesis by (simp add: rbits_def current_fresh)
  qed simp
  with z show ?thesis
    by (simp add: des_step_def getByte_def Let_def)
qed

lemma des_step_bit:
  assumes "des_inv s" "rbits s = x # r"
  shows "\<exists>s'. des_step dm s = Inr (accumulate (des_byteOrder s) dm x, s') \<and> rbits s' = r
           \<and> des_inv s' \<and> des_byteOrder s' = des_byteOrder s"
proof (cases "des_bitsLeft s = 0")
  case True
  with assms(2) obtain b bs where bs: "buffer s = b # bs"
    by (cases "buffer s") (auto simp: rbits_def)
  with assms(2) True have x: "x = bit b (if des_byteOrder s = MsbFirst then 7 else 0)"
    and r: "r = current (des_byteOrder s) 7 b @ concat (map (data_bits (des_byteOrder s) 8) bs)"
    by (simp_all add: rbits_def current_fresh)
  show ?thesis
  proof (cases "des_byteOrder s")
    case MsbFirst
    with True bs x r show ?thesis
      by (simp add: des_step_def getByte_def Let_def accumulate_def rbits_def des_inv_def
          test_x80)
  next
    case LsbFirst
    with True bs x r show ?thesis
      by (simp add: des_step_def getByte_def Let_def accumulate_def rbits_def des_inv_def
          test_low_bit)
  qed
next
  case False
  then have l0: "0 < unat (des_bitsLeft s)"
    by (simp add: unat_gt_0)
  from assms(1) have l7: "unat (des_bitsLeft s) \<le> 7" by (simp add: des_inv_def)
  from False have lm: "unat (des_bitsLeft s - 1) = unat (des_bitsLeft s) - 1"
    by (metis unat_minus_one)
  note cs = current_step[OF l0 l7, of "des_byteOrder s" "des_byte s"]
  show ?thesis
  proof (cases "des_byteOrder s")
    case MsbFirst
    with cs assms(2) have x: "x = bit (des_byte s) 6"
      and r: "r = current MsbFirst (unat (des_bitsLeft s) - 1) (des_byte s * 2)
                 @ concat (map (data_bits MsbFirst 8) (buffer s))"
      by (simp_all add: rbits_def)
    have t: "(des_byte s * 2 AND 128 \<noteq> 0) = bit (des_byte s) 6"
      by (simp add: test_x80 bit_times2)
    from MsbFirst False x r lm l7 show ?thesis
      by (simp add: des_step_def Let_def accumulate_def rbits_def des_inv_def t)
  next
    case LsbFirst
    with cs assms(2) have x: "x = bit (des_byte s) 1"
      and r: "r = current LsbFirst (unat (des_bitsLeft s) - 1) (drop_bit (Suc 0) (des_byte s))
                 @ concat (map (data_bits LsbFirst 8) (buffer s))"
      by (simp_all add: rbits_def)
    have t: "(drop_bit (Suc 0) (des_byte s) AND 1 \<noteq> 0) = bit (des_byte s) 1"
      by (simp add: test_low_bit bit_drop_bit_eq)
    from LsbFirst False x r lm l7 show ?thesis
      by (simp add: des_step_def Let_def accumulate_def rbits_def des_inv_def t)
  qed
qed

lemma des_loop_short:
  "des_inv s \<Longrightarrow> length (rbits s) < n \<Longrightarrow>
   des_loop n dm s = Inl (out_of_range ''Buffer deserializer out of range'')"
proof (induction n arbitrary: dm s)
  case 0
  then show ?case by simp
next
  case (Suc n)
  show ?case
  proof (cases "rbits s")
    case Nil
    with des_step_empty[OF Suc.prems(1)] show ?thesis by simp
  next
    case (Cons x r)
    from des_step_bit[OF Suc.prems(1) Cons, of dm] obtain s' where
      "des_step dm s = Inr (accumulate (des_byteOrder s) dm x, s')" "rbits s' = r" "des_inv s'"
      by blast
    with Suc.IH[of s' "accumulate (des_byteOrder s) dm x"] Suc.prems(2) Cons show ?thesis
      by simp
  qed
qed

lemma des_loop_enough:
  "des_inv s \<Longrightarrow> n \<le> length (rbits s) \<Longrightarrow>
   \<exists>s'. des_loop n dm s = Inr (foldl (accumulate (des_byteOrder s)) dm (List.take n (rbits s)), s')
     \<and> rbits s' = drop n (rbits s) \<and> des_inv s' \<and> des_byteOrder s' = des_byteOrder s"
proof (induction n arbitrary: dm s)
  case 0
  then show ?case by simp
next
  case (Suc n)
  then obtain x r where xr: "rbits s = x # r" by (cases "rbits s") auto
  from des_step_bit[OF Suc.prems(1) xr, of dm] obtain s' where
    s': "des_step dm s = Inr (accumulate (des_byteOrder s) dm x, s')" "rbits s' = r" "des_inv s'"
      "des_byteOrder s' = des_byteOrder s"
    by blast
  from Suc.prems(2) xr s'(2) have "n \<le> length (rbits s')" by simp
  from Suc.IH[OF s'(3) this, of "accumulate (des_byteOrder s) dm x"] s' xr show ?case
    by auto
qed

lemma takeT_sim: "des_inv s \<Longrightarrow> sim s (takeT T n s) (bits_take (des_byteOrder s) T n (rbits s))"
proof -
  assume inv: "des_inv s"
  show ?thesis
  proof (cases "n \<le> length (rbits s)")
    case True
    from des_loop_enough[OF inv True, of "(0, - 1)"] obtain s' where
      "des_loop n (0, - 1) s
         = Inr (foldl (accumulate (des_byteOrder s)) (0, - 1) (List.take n (rbits s)), s')"
      "rbits s' = drop n (rbits s)" "des_inv s'" "des_byteOrder s' = des_byteOrder s"
      by blast
    with True show ?thesis
      by (simp add: sim_def takeT_def bits_take_def des_impl_def decode_word_def Let_def
          split: prod.splits)
  next
    case False
    then have "length (rbits s) < n" by simp
    from des_loop_short[OF inv this] False show ?thesis
      by (simp add: sim_def takeT_def bits_take_def des_impl_def)
  qed
qed

lemma sim_return:
  "rbits s' = r \<Longrightarrow> des_inv s' \<Longrightarrow> des_byteOrder s' = des_byteOrder s \<Longrightarrow>
   sim s (Inr (v, s')) (Inr (v, r))"
  by (simp add: sim_def)

lemma sim_bind:
  assumes "sim s c a"
    and "\<And>v s'. c = Inr (v, s') \<Longrightarrow> des_inv s' \<Longrightarrow> des_byteOrder s' = des_byteOrder s \<Longrightarrow>
           sim s' (f v s') (g v (rbits s'))"
  shows "sim s (case c of Inl e \<Rightarrow> Inl e | Inr (v, s') \<Rightarrow> f v s')
               (case a of Inl e \<Rightarrow> Inl e | Inr (v, r) \<Rightarrow> g v r)"
proof (cases a)
  case (Inl e)
  with assms(1) show ?thesis by (simp add: sim_def)
next
  case (Inr p)
  obtain v r where p: "p = (v, r)" by (cases p)
  with Inr assms(1) obtain s' where s': "c = Inr (v, s')" "rbits s' = r" "des_inv s'"
    "des_byteOrder s' = des_byteOrder s"
    by (auto simp: sim_def)
  from assms(2)[OF s'(1,3,4)] s' Inr p show ?thesis
    by (auto simp: sim_def split: sum.splits)
qed

lemma sim_map:
  assumes "sim s c a"
  shows "sim s (case c of Inl e \<Rightarrow> Inl e | Inr (v, s') \<Rightarrow> Inr (h v, s'))
               (case a of Inl e \<Rightarrow> Inl e | Inr (v, r) \<Rightarrow> Inr (h v, r))"
  using assms by (auto simp: sim_def split: sum.splits)

text \<open>
  \<^verbatim>\<open>get\<close> consumes the bits of \<open>dec\<close>, from every state that satisfies the invariant and
  into every destination of the form of the type.
\<close>

lemma shaped_each_replicate: "shaped E v \<Longrightarrow> shaped_each E (replicate n v)"
  by (induction n) simp_all

lemma shaped_default: "shaped T (default_val T)"
  by (induction T) (simp_all add: shaped_each_replicate)

lemma shaped_member_at: "shaped T (member_at m c T)"
  by (simp add: member_at_def shaped_default split: option.splits)

lemma shaped_each_append:
  "shaped_each E (xs @ ys) \<longleftrightarrow> shaped_each E xs \<and> shaped_each E ys"
  by (induction xs) simp_all

lemma shaped_each_take: "shaped_each E xs \<Longrightarrow> shaped_each E (List.take n xs)"
proof (induction xs arbitrary: n)
  case (Cons x xs)
  then show ?case by (cases n) simp_all
qed simp

lemma shaped_each_resize: "shaped_each E xs \<Longrightarrow> shaped_each E (resize E xs n)"
  by (simp add: resize_def shaped_each_append shaped_each_take shaped_each_replicate shaped_default)

lemma length_resize [simp]: "length (resize E xs n) = n"
  by (simp add: resize_def)

lemma runs_sim:
  assumes "sim s c a"
  shows "runs s (case c of Inl e \<Rightarrow> Inl e | Inr (v, s') \<Rightarrow> Inr (h v, s'))
                (case a of Inl e \<Rightarrow> Inl e | Inr (v, r) \<Rightarrow> Inr r)"
  using assms by (auto simp: sim_def runs_def split: sum.splits)

lemma runs_map:
  assumes "runs s c a"
  shows "runs s (case c of Inl e \<Rightarrow> Inl e | Inr (v, s') \<Rightarrow> Inr (h v, s')) a"
  using assms by (auto simp: runs_def split: sum.splits)

lemma runs_bind:
  assumes "runs s c a"
    and "\<And>v s'. c = Inr (v, s') \<Longrightarrow> des_inv s' \<Longrightarrow> des_byteOrder s' = des_byteOrder s \<Longrightarrow>
           runs s' (f v s') (g (rbits s'))"
  shows "runs s (case c of Inl e \<Rightarrow> Inl e | Inr (v, s') \<Rightarrow> f v s')
                (case a of Inl e \<Rightarrow> Inl e | Inr r \<Rightarrow> g r)"
proof (cases a)
  case (Inl e)
  with assms(1) show ?thesis by (simp add: runs_def)
next
  case (Inr r)
  with assms(1) obtain v s' where s': "c = Inr (v, s')" "rbits s' = r" "des_inv s'"
    "des_byteOrder s' = des_byteOrder s"
    by (auto simp: runs_def)
  from assms(2)[OF s'(1,3,4)] s' Inr show ?thesis
    by (auto simp: runs_def split: sum.splits)
qed

lemma sim_runs_bind:
  assumes "sim s c a"
    and "\<And>v s'. c = Inr (v, s') \<Longrightarrow> des_inv s' \<Longrightarrow> des_byteOrder s' = des_byteOrder s \<Longrightarrow>
           runs s' (f v s') (g v (rbits s'))"
  shows "runs s (case c of Inl e \<Rightarrow> Inl e | Inr (v, s') \<Rightarrow> f v s')
                (case a of Inl e \<Rightarrow> Inl e | Inr (v, r) \<Rightarrow> g v r)"
proof (cases a)
  case (Inl e)
  with assms(1) show ?thesis by (simp add: sim_def runs_def)
next
  case (Inr p)
  obtain v r where p: "p = (v, r)" by (cases p)
  with Inr assms(1) obtain s' where s': "c = Inr (v, s')" "rbits s' = r" "des_inv s'"
    "des_byteOrder s' = des_byteOrder s"
    by (auto simp: sim_def)
  from assms(2)[OF s'(1,3,4)] s' Inr p show ?thesis
    by (auto simp: runs_def split: sum.splits)
qed

lemma get_runs:
  "shaped T d \<Longrightarrow> des_inv s \<Longrightarrow> runs s (get T d s) (dec (des_byteOrder s) T (rbits s))"
  "shaped_each E ds \<Longrightarrow> des_inv s \<Longrightarrow>
     runs s (get_each E ds s) (dec_each (des_byteOrder s) E (length ds) (rbits s))"
  "des_inv s \<Longrightarrow>
     runs s (get_members cs Ts m s) (dec_members (des_byteOrder s) cs Ts (rbits s))"
proof (induction T d s and E ds s and cs Ts m s rule: get_get_each_get_members.induct)
  case (1 T x s)
  then show ?case by (simp add: runs_sim[OF takeT_sim])
next
  case (2 U x s)
  then show ?case by (simp add: runs_sim[OF takeT_sim])
next
  case (3 n x s)
  show ?case
  proof (cases "n = 2 \<or> n = 4 \<or> n = 8")
    case True
    have "runs s
       (case takeT (Unsigned n) (bitsize (Unsigned n)) s of
          Inl e \<Rightarrow> Inl e | Inr (v, s') \<Rightarrow> Inr (Scalar v, s'))
       (case bits_take (des_byteOrder s) (Unsigned n) (bitsize (Unsigned n)) (rbits s) of
          Inl e \<Rightarrow> Inl e | Inr (v, r) \<Rightarrow> Inr r)"
      by (rule runs_sim[OF takeT_sim[OF "3.prems"(2)]])
    with True show ?thesis by (simp only: get.simps dec.simps if_True)
  next
    case False
    then show ?thesis by (simp add: runs_def)
  qed
next
  case (4 E xs s)
  have "runs s
     (case takeT size_t_type (bitsize size_t_type) s of
        Inl e \<Rightarrow> Inl e
      | Inr (count, s1) \<Rightarrow>
          (case get_each E (resize E xs (nat count)) s1 of
             Inl e \<Rightarrow> Inl e
           | Inr (ys, s2) \<Rightarrow> Inr (Elems ys, s2)))
     (case bits_take (des_byteOrder s) size_t_type (bitsize size_t_type) (rbits s) of
        Inl e \<Rightarrow> Inl e
      | Inr (count, r) \<Rightarrow> dec_each (des_byteOrder s) E (nat count) r)"
  proof (rule sim_runs_bind[OF takeT_sim[OF "4.prems"(2)]])
    fix count s1
    assume c: "takeT size_t_type (bitsize size_t_type) s = Inr (count, s1)"
      and inv: "des_inv s1" and ord: "des_byteOrder s1 = des_byteOrder s"
    from "4.prems"(1) have "shaped_each E (resize E xs (nat count))"
      by (simp add: shaped_each_resize)
    from "4.IH"[OF c refl this inv] ord
    have "runs s1 (get_each E (resize E xs (nat count)) s1)
            (dec_each (des_byteOrder s) E (nat count) (rbits s1))"
      by simp
    then show "runs s1
        (case get_each E (resize E xs (nat count)) s1 of
           Inl e \<Rightarrow> Inl e
         | Inr (ys, s2) \<Rightarrow> Inr (Elems ys, s2))
        (dec_each (des_byteOrder s) E (nat count) (rbits s1))"
      by (rule runs_map)
  qed
  then show ?case by simp
next
  case (5 n E xs s)
  then have "runs s (get_each E xs s) (dec_each (des_byteOrder s) E n (rbits s))"
    by simp
  from runs_map[OF this, of Elems] 5 show ?case by simp
next
  case (6 L Ts m s)
  show ?case
  proof (cases "Ts = []")
    case True
    then show ?thesis by (simp add: runs_def member_offsets_class_of)
  next
    case False
    define offsets where "offsets = member_offsets_impl 0 (map (\<lambda>T. (sizeof_ty T, alignof_ty T)) Ts)"
    have mo: "member_offsets (class_of Ts) = Some offsets"
      by (simp add: member_offsets_class_of offsets_def)
    from False have ne: "offsets \<noteq> []"
      by (auto simp: offsets_def dest!: arg_cong[where f=length])
    from "6.IH"[OF mo ne "6.prems"(2)]
    have "runs s (get_members offsets Ts m s) (dec_members (des_byteOrder s) offsets Ts (rbits s))" .
    from runs_map[OF this, of Fields] mo ne show ?thesis by simp
  qed
next
  case (7 T w x s)
  show ?case
  proof (cases "w > bitsize T")
    case True
    then show ?thesis by (simp add: runs_def)
  next
    case False
    have "runs s
       (case takeT T w s of Inl e \<Rightarrow> Inl e | Inr (v, s') \<Rightarrow> Inr (Scalar v, s'))
       (case bits_take (des_byteOrder s) T w (rbits s) of
          Inl e \<Rightarrow> Inl e | Inr (v, r) \<Rightarrow> Inr r)"
      by (rule runs_sim[OF takeT_sim[OF "7.prems"(2)]])
    with False show ?thesis by simp
  qed
next
  case (8 w s)
  show ?case
  proof (cases "w > bitsize size_t_type")
    case True
    then show ?thesis by (simp add: runs_def)
  next
    case False
    have "sim s (takeT size_t_type w s) (bits_take (des_byteOrder s) size_t_type w (rbits s))"
      using 8 by (intro takeT_sim)
    from runs_sim[OF this, of "\<lambda>_. Unit"] False show ?thesis by simp
  qed
next
  case (10 E s)
  then show ?case by (simp add: runs_def)
next
  case (11 E x xs s)
  have "runs s
     (case get E x s of
        Inl e \<Rightarrow> Inl e
      | Inr (y, s') \<Rightarrow>
          (case get_each E xs s' of Inl e \<Rightarrow> Inl e | Inr (ys, s'') \<Rightarrow> Inr (y # ys, s'')))
     (case dec (des_byteOrder s) E (rbits s) of
        Inl e \<Rightarrow> Inl e
      | Inr r \<Rightarrow> dec_each (des_byteOrder s) E (length xs) r)"
  proof (rule runs_bind)
    from 11 show "runs s (get E x s) (dec (des_byteOrder s) E (rbits s))" by simp
  next
    fix y s1
    assume c: "get E x s = Inr (y, s1)"
      and inv: "des_inv s1" and ord: "des_byteOrder s1 = des_byteOrder s"
    from "11.prems"(1) have "shaped_each E xs" by simp
    from "11.IH"(2)[OF c refl this inv] ord
    have "runs s1 (get_each E xs s1) (dec_each (des_byteOrder s) E (length xs) (rbits s1))"
      by simp
    then show "runs s1
        (case get_each E xs s1 of Inl e \<Rightarrow> Inl e | Inr (ys, s'') \<Rightarrow> Inr (y # ys, s''))
        (dec_each (des_byteOrder s) E (length xs) (rbits s1))"
      by (rule runs_map)
  qed
  then show ?case by simp
next
  case (12 m s)
  then show ?case by (simp add: runs_def)
next
  case (13 c cs T Ts m s)
  have "runs s
     (case get T (member_at m c T) s of
        Inl e \<Rightarrow> Inl e
      | Inr (y, s') \<Rightarrow> get_members cs Ts (store c y m) s')
     (case dec (des_byteOrder s) T (rbits s) of
        Inl e \<Rightarrow> Inl e
      | Inr r \<Rightarrow> dec_members (des_byteOrder s) cs Ts r)"
  proof (rule runs_bind)
    from "13.IH"(1)[OF shaped_member_at "13.prems"]
    show "runs s (get T (member_at m c T) s) (dec (des_byteOrder s) T (rbits s))" .
  next
    fix y s1
    assume c: "get T (member_at m c T) s = Inr (y, s1)"
      and inv: "des_inv s1" and ord: "des_byteOrder s1 = des_byteOrder s"
    from "13.IH"(2)[OF c refl inv] ord
    show "runs s1 (get_members cs Ts (store c y m) s1)
            (dec_members (des_byteOrder s) cs Ts (rbits s1))"
      by simp
  qed
  then show ?case by simp
qed (simp_all add: runs_def)

section \<open>Input after the bits a decoding reads\<close>

lemma more_input_simps [simp]:
  "des_byteOrder (more_input sfx s) = des_byteOrder s"
  "des_byte (more_input sfx s) = des_byte s"
  "des_bitsLeft (more_input sfx s) = des_bitsLeft s"
  "buffer (more_input sfx s) = buffer s @ sfx"
  by (simp_all add: more_input_def)

lemma des_step_more:
  assumes "des_step dm s = Inr (dm', s')"
  shows "des_step dm (more_input sfx s) = Inr (dm', more_input sfx s')"
proof (cases "des_bitsLeft s = 0")
  case True
  with assms obtain b bs where "buffer s = b # bs"
    by (cases "buffer s") (auto simp: des_step_def getByte_def Let_def)
  with True assms show ?thesis
    by (auto simp: des_step_def getByte_def Let_def more_input_def)
next
  case False
  with assms show ?thesis
    by (auto simp: des_step_def Let_def more_input_def)
qed

lemma des_loop_more:
  "des_loop n dm s = Inr (dm', s') \<Longrightarrow>
   des_loop n dm (more_input sfx s) = Inr (dm', more_input sfx s')"
proof (induction n arbitrary: dm s)
  case 0
  then show ?case by simp
next
  case (Suc n)
  then obtain dm1 s1 where st: "des_step dm s = Inr (dm1, s1)"
    and lp: "des_loop n dm1 s1 = Inr (dm', s')"
    by (auto split: sum.splits)
  from des_step_more[OF st] Suc.IH[OF lp] show ?case by simp
qed

lemma takeT_more:
  assumes "takeT T n s = Inr (v, s')"
  shows "takeT T n (more_input sfx s) = Inr (v, more_input sfx s')"
proof -
  from assms obtain d m where lp: "des_loop n (0, - 1) s = Inr ((d, m), s')"
    by (auto simp: takeT_def des_impl_def Let_def split: if_splits sum.splits prod.splits)
  from des_loop_more[OF lp] lp assms show ?thesis
    by (auto simp: takeT_def des_impl_def Let_def split: if_splits)
qed

text \<open>
  A decoding that succeeds succeeds with the same result when bytes are appended to the
  input, and leaves these bytes unread.
\<close>

lemma get_more:
  "get T d s = Inr (v, s') \<Longrightarrow> get T d (more_input sfx s) = Inr (v, more_input sfx s')"
  "get_each E ds s = Inr (vs, s') \<Longrightarrow>
     get_each E ds (more_input sfx s) = Inr (vs, more_input sfx s')"
  "get_members cs Ts m s = Inr (m', s') \<Longrightarrow>
     get_members cs Ts m (more_input sfx s) = Inr (m', more_input sfx s')"
proof (induction T d s and E ds s and cs Ts m s arbitrary: v s' and vs s' and m' s'
    rule: get_get_each_get_members.induct)
  case (1 T x s)
  then obtain y where "takeT T (bitsize T) s = Inr (y, s')" "v = Scalar y"
    by (auto split: sum.splits)
  with takeT_more[OF this(1), of sfx] show ?case by simp
next
  case (2 U x s)
  then obtain y where "takeT U (bitsize U) s = Inr (y, s')" "v = Scalar y"
    by (auto split: sum.splits)
  with takeT_more[OF this(1), of sfx] show ?case by simp
next
  case (3 n x s)
  then have n: "n = 2 \<or> n = 4 \<or> n = 8"
    by (simp split: if_splits)
  with 3 obtain y where "takeT (Unsigned n) (bitsize (Unsigned n)) s = Inr (y, s')" "v = Scalar y"
    by (auto simp del: takeT_def split: sum.splits)
  with takeT_more[OF this(1), of sfx] n show ?case by auto
next
  case (4 E xs s)
  then obtain c s1 ys where t: "takeT size_t_type (bitsize size_t_type) s = Inr (c, s1)"
    and g: "get_each E (resize E xs (nat c)) s1 = Inr (ys, s')" and v: "v = Elems ys"
    by (auto split: sum.splits)
  from "4.IH"[OF t refl g] takeT_more[OF t, of sfx] v show ?case by simp
next
  case (5 n E xs s)
  then obtain ys where l: "length xs = n" and g: "get_each E xs s = Inr (ys, s')"
    and v: "v = Elems ys"
    by (auto split: sum.splits if_splits)
  from "5.IH"[OF l g] l v show ?case by simp
next
  case (6 L Ts m s)
  then obtain offsets m' where mo: "member_offsets (class_of Ts) = Some offsets"
    and ne: "offsets \<noteq> []"
    and g: "get_members offsets Ts m s = Inr (m', s')" and v: "v = Fields m'"
    by (auto split: sum.splits if_splits option.splits)
  from "6.IH"[OF mo ne g] mo ne v show ?case by simp
next
  case (7 T w x s)
  then obtain y where w: "\<not> w > bitsize T" and "takeT T w s = Inr (y, s')" "v = Scalar y"
    by (auto split: sum.splits if_splits)
  with takeT_more[OF this(2), of sfx] show ?case by simp
next
  case (8 w s)
  then obtain y where w: "\<not> w > bitsize size_t_type" and "takeT size_t_type w s = Inr (y, s')"
    "v = Unit"
    by (auto split: sum.splits if_splits)
  with takeT_more[OF this(2), of sfx] show ?case by simp
next
  case (11 E x xs s)
  then obtain y s1 ys where g1: "get E x s = Inr (y, s1)"
    and g2: "get_each E xs s1 = Inr (ys, s')" and v: "vs = y # ys"
    by (auto split: sum.splits)
  from "11.IH"(1)[OF g1] "11.IH"(2)[OF g1 refl g2] v show ?case by simp
next
  case (13 c cs T Ts m s)
  then obtain y s1 where g1: "get T (member_at m c T) s = Inr (y, s1)"
    and g2: "get_members cs Ts (store c y m) s1 = Inr (m', s')"
    by (auto split: sum.splits)
  from "13.IH"(1)[OF g1] "13.IH"(2)[OF g1 refl g2] show ?case by simp
qed simp_all

section \<open>The word decoded from the bits of a word\<close>

lemma bit_or_one_times2:
  "bit (d * 2 OR 1 :: size_t) i \<longleftrightarrow> i = 0 \<or> (1 \<le> i \<and> i < 64 \<and> bit d (i - 1))"
  by (auto simp: bit_or_iff bit_times2 bit_one_word)

lemma bit_or_top:
  "bit (d OR 9223372036854775808 :: size_t) i \<longleftrightarrow> bit d i \<or> i = 63"
  by (simp only: bit_or_iff bit_top64)

lemma fst_accumulate_msb:
  "fst (accumulate MsbFirst dm x) = (if x then fst dm * 2 OR 1 else fst dm * 2)"
  by (simp add: accumulate_def)

lemma fst_accumulate_lsb:
  "fst (accumulate LsbFirst dm x)
     = (if x then drop_bit (Suc 0) (fst dm) OR 9223372036854775808 else drop_bit (Suc 0) (fst dm))"
  by (simp add: accumulate_def)

lemma foldl_accumulate_msb:
  assumes "length xs \<le> 64"
  shows "bit (fst (foldl (accumulate MsbFirst) (0, m) xs)) i
           \<longleftrightarrow> i < length xs \<and> xs ! (length xs - 1 - i)"
  using assms
proof (induction xs arbitrary: i rule: rev_induct)
  case Nil
  then show ?case by simp
next
  case (snoc x xs)
  let ?d = "fst (foldl (accumulate MsbFirst) (0, m) xs)"
  from snoc.prems have n: "length xs < 64" by simp
  have IH: "bit ?d j \<longleftrightarrow> j < length xs \<and> xs ! (length xs - 1 - j)" for j
    using snoc.IH[of j] n by simp
  show ?case
  proof (cases i)
    case 0
    then show ?thesis
      by (cases x) (simp_all add: fst_accumulate_msb bit_or_one_times2 bit_times2)
  next
    case (Suc j)
    then have "length xs - Suc j = length xs - 1 - j" by simp
    moreover have "j < length xs \<Longrightarrow> Suc j < 64" using n by simp
    moreover have "j < length xs \<Longrightarrow> length xs - Suc j < length xs" by simp
    ultimately show ?thesis using Suc
      by (cases x) (auto simp: fst_accumulate_msb bit_or_one_times2 bit_times2 IH nth_append)
  qed
qed

lemma foldl_accumulate_lsb:
  assumes "length xs \<le> 64"
  shows "bit (fst (foldl (accumulate LsbFirst) (0, m) xs)) i
           \<longleftrightarrow> 64 - length xs \<le> i \<and> i < 64 \<and> xs ! (i + length xs - 64)"
  using assms
proof (induction xs arbitrary: i rule: rev_induct)
  case Nil
  then show ?case by (auto dest: bit_imp_le_length)
next
  case (snoc x xs)
  let ?d = "fst (foldl (accumulate LsbFirst) (0, m) xs)"
  from snoc.prems have n: "length xs < 64" by simp
  have IH: "bit ?d j \<longleftrightarrow> 64 - length xs \<le> j \<and> j < 64 \<and> xs ! (j + length xs - 64)" for j
    using snoc.IH[of j] n by simp
  show ?case
  proof (cases "i = 63")
    case True
    with n show ?thesis
      by (cases x) (simp_all add: fst_accumulate_lsb bit_or_top bit_drop_bit_eq IH nth_append)
  next
    case False
    have a: "Suc (i + length xs) - 64 = i + length xs - 63" by simp
    have b: "63 - length xs \<le> i \<Longrightarrow> i < 63 \<Longrightarrow> i + length xs - 63 < length xs" by arith
    have c: "(64 - length xs \<le> Suc i) = (63 - length xs \<le> i)" using n by arith
    from False n show ?thesis
      by (cases x) (auto simp: fst_accumulate_lsb bit_or_top bit_drop_bit_eq IH nth_append a b c)
  qed
qed

lemma decode_word_bits:
  assumes "length xs = n" "n \<le> 64"
  shows "bit (decode_word byteOrder n False xs) i
           \<longleftrightarrow> i < n \<and> xs ! (if byteOrder = MsbFirst then n - 1 - i else i)"
proof (cases byteOrder)
  case MsbFirst
  with assms foldl_accumulate_msb[of xs "- 1" i] show ?thesis
    by (simp add: decode_word_def)
next
  case LsbFirst
  from assms have "i < n \<Longrightarrow> 64 - n + i + n - 64 = i" "i < n \<Longrightarrow> 64 - n + i < 64" by arith+
  with LsbFirst assms foldl_accumulate_lsb[of xs "- 1" "64 - n + i"] show ?thesis
    by (auto simp: decode_word_def bit_drop_bit_eq dest: bit_imp_le_length)
qed

lemma decode_word_data_bits:
  assumes "n \<le> 64"
  shows "decode_word byteOrder n False (data_bits byteOrder n w) = take_bit n w"
proof (rule bit_eqI)
  fix i
  from assms have "i < n \<Longrightarrow> n - 1 - (n - 1 - i) = i" "i < n \<Longrightarrow> n - 1 - i < n" by arith+
  with assms show "bit (decode_word byteOrder n False (data_bits byteOrder n w)) i
      = bit (take_bit n w) i"
    by (auto simp: decode_word_bits nth_data_bits bit_take_bit_iff)
qed

lemma bits_give_length: "bits_give bo T x n = Inr E \<Longrightarrow> length E = n"
  by (auto simp: bits_give_def split: if_splits)

lemma bits_give_take:
  assumes "bits_give bo T x n = Inr E" "n \<le> length X"
  shows "bits_take bo T n X
    = Inr (static_cast T (decode_word bo n (is_signed T) (List.take n X)), drop n X)"
  using assms by (auto simp: bits_give_def bits_take_def split: if_splits)

section \<open>Decoding what was encoded\<close>

text \<open>
  When fewer than 64 bits remain to be read no count is among them, and the decoder
  reads the bits of a value as the encoder wrote them, whatever they are.
\<close>

lemma dec_tail:
  "enc bo T v = Inr E \<Longrightarrow> length E < 64 \<Longrightarrow> length E \<le> length X \<Longrightarrow>
     dec bo T X = Inr (drop (length E) X)"
  "enc_each bo El vs = Inr E \<Longrightarrow> length E < 64 \<Longrightarrow> length E \<le> length X \<Longrightarrow>
     dec_each bo El (length vs) X = Inr (drop (length E) X)"
  "enc_members bo cs Ts m = Inr E \<Longrightarrow> length E < 64 \<Longrightarrow> length E \<le> length X \<Longrightarrow>
     dec_members bo cs Ts X = Inr (drop (length E) X)"
proof (induction bo T v and bo El vs and bo cs Ts m arbitrary: E X and E X and E X
    rule: enc_enc_each_enc_members.induct)
  case (1 bo T x)
  from bits_give_length[of bo T x "bitsize T" E] bits_give_take[of bo T x "bitsize T" E X] 1
  show ?case by simp
next
  case (2 bo U x)
  from bits_give_length[of bo U x "bitsize U" E] bits_give_take[of bo U x "bitsize U" E X] 2
  show ?case by simp
next
  case (3 bo n x)
  then have n: "n = 2 \<or> n = 4 \<or> n = 8" and g: "bits_give bo (Unsigned n) x (bitsize (Unsigned n)) = Inr E"
    by (simp_all split: if_splits)
  from bits_give_length[OF g] bits_give_take[OF g, of X] 3 n
  show ?case by auto
next
  case (4 bo El xs)
  then obtain c bs where "bits_give bo size_t_type (int (length xs)) (bitsize size_t_type) = Inr c"
    "E = c @ bs"
    by (auto split: sum.splits)
  with bits_give_length[OF this(1)] "4.prems"(2) show ?case
    by (simp add: bitsize_def)
next
  case (5 bo n El xs)
  then have l: "length xs = n" and e: "enc_each bo El xs = Inr E"
    by (simp_all split: if_splits)
  from "5.IH"[OF l e "5.prems"(2,3)] l show ?case by auto
next
  case (6 bo L Ts m)
  then obtain offsets where mo: "member_offsets (class_of Ts) = Some offsets"
    and ne: "offsets \<noteq> []" and e: "enc_members bo offsets Ts m = Inr E"
    by (auto split: option.splits if_splits)
  from "6.IH"[OF mo ne e "6.prems"(2,3)] mo ne show ?case by simp
next
  case (7 bo T w x)
  then have w: "\<not> w > bitsize T" and g: "bits_give bo T x w = Inr E"
    by (simp_all split: if_splits)
  from bits_give_length[OF g] bits_give_take[OF g, of X] 7 w
  show ?case by auto
next
  case (8 bo w)
  then have w: "\<not> w > bitsize size_t_type" and g: "bits_give bo size_t_type 0 w = Inr E"
    by (simp_all split: if_splits)
  from bits_give_length[OF g] bits_give_take[OF g, of X] 8 w
  show ?case by auto
next
  case (10 bo El)
  then show ?case by simp
next
  case (11 bo El x xs)
  then obtain b bs where b: "enc bo El x = Inr b" and bs: "enc_each bo El xs = Inr bs"
    and E: "E = b @ bs"
    by (auto split: sum.splits)
  from E "11.prems" have lb: "length b < 64" "length b \<le> length X"
    and lbs: "length bs < 64" "length bs \<le> length (drop (length b) X)"
    by simp_all
  from "11.IH"(1)[OF b lb] have v': "dec bo El X = Inr (drop (length b) X)" .
  from "11.IH"(2)[OF b bs lbs]
  have "dec_each bo El (length xs) (drop (length b) X) = Inr (drop (length bs) (drop (length b) X))" .
  with v' E show ?case by (simp add: add.commute)
next
  case (12 bo m)
  then show ?case by simp
next
  case (13 bo c cs T Ts m)
  then obtain x b bs where x: "map_of m c = Some x" and b: "enc bo T x = Inr b"
    and bs: "enc_members bo cs Ts m = Inr bs" and E: "E = b @ bs"
    by (auto split: sum.splits option.splits)
  from E "13.prems" have lb: "length b < 64" "length b \<le> length X"
    and lbs: "length bs < 64" "length bs \<le> length (drop (length b) X)"
    by simp_all
  from "13.IH"(1)[OF x b lb] have v': "dec bo T X = Inr (drop (length b) X)" .
  from "13.IH"(2)[OF x b bs lbs]
  have "dec_members bo cs Ts (drop (length b) X) = Inr (drop (length bs) (drop (length b) X))" .
  with v' E show ?case by (simp add: add.commute)
qed simp_all

lemma enc_each_take:
  "enc_each bo El vs = Inr E \<Longrightarrow>
   \<exists>Em. enc_each bo El (List.take m vs) = Inr Em \<and> length Em \<le> length E"
proof (induction vs arbitrary: m E)
  case Nil
  then show ?case by simp
next
  case (Cons x xs)
  then obtain b bs where b: "enc bo El x = Inr b" and bs: "enc_each bo El xs = Inr bs"
    and E: "E = b @ bs"
    by (auto split: sum.splits)
  show ?case
  proof (cases m)
    case 0
    then show ?thesis by simp
  next
    case (Suc k)
    from Cons.IH[OF bs, of k] obtain Em where "enc_each bo El (List.take k xs) = Inr Em"
      "length Em \<le> length bs"
      by blast
    with Suc b E show ?thesis by simp
  qed
qed

lemma enc_each_pigeonhole:
  "enc_each bo El vs = Inr E \<Longrightarrow> (\<And>x. x \<in> set vs \<Longrightarrow> enc bo El x \<noteq> Inr []) \<Longrightarrow>
   length vs \<le> length E"
proof (induction vs arbitrary: E)
  case Nil
  then show ?case by simp
next
  case (Cons x xs)
  then obtain b bs where b: "enc bo El x = Inr b" and bs: "enc_each bo El xs = Inr bs"
    and E: "E = b @ bs"
    by (auto split: sum.splits)
  from Cons.prems(2)[of x] b have "b \<noteq> []" by auto
  then have "1 \<le> length b" by (cases b) simp_all
  moreover from Cons.IH[OF bs] Cons.prems(2) have "length xs \<le> length bs" by simp
  ultimately show ?case using E by simp
qed

lemma dec_each_empty:
  assumes "enc bo El x = Inr []"
  shows "dec_each bo El m X = Inr X"
proof (induction m)
  case 0
  then show ?case by simp
next
  case (Suc m)
  from dec_tail(1)[OF assms, of X] have "dec bo El X = Inr X" by simp
  with Suc show ?case by simp
qed

lemma dec_each_tail:
  assumes e: "enc_each bo El xs = Inr Es"
    and l: "length Es + length Y < 64" "length Es + length Y \<le> length X"
    and m: "m \<le> length xs \<or> (\<exists>x\<in>set xs. enc bo El x = Inr [])"
  shows "\<exists>X'. dec_each bo El m X = Inr X' \<and> length Y \<le> length X'"
proof (cases "\<exists>x\<in>set xs. enc bo El x = Inr []")
  case True
  then obtain x where "enc bo El x = Inr []" by blast
  from dec_each_empty[OF this, of m X] l show ?thesis by auto
next
  case False
  with m have m: "m \<le> length xs" by simp
  from enc_each_take[OF e, of m] obtain Em where Em: "enc_each bo El (List.take m xs) = Inr Em"
    "length Em \<le> length Es"
    by blast
  with l have "length Em < 64" "length Em \<le> length X" by simp_all
  moreover from m have "length (List.take m xs) = m" by simp
  ultimately have "dec_each bo El m X = Inr (drop (length Em) X)"
    using dec_tail(2)[OF Em(1), of X] by metis
  with Em(2) l show ?thesis by simp
qed

section \<open>A count read across the final partial byte\<close>

lemma crossing_nth:
  assumes eq: "C @ Rest = H @ Tl" and C: "length C = 64" and H: "length H < 64"
    and z: "length Tl + z \<le> 7" and j: "j < 64"
  shows "(H @ replicate z False @ Tl @ W) ! j
    = (if j < length H then C ! j else if j < length H + z then False else C ! (j - z))"
proof -
  have nthA: "(H @ Tl) ! k = C ! k" if "k < 64" for k
    using that C by (simp add: eq[symmetric] nth_append)
  from eq C have len: "64 \<le> length H + length Tl"
    by (metis length_append le_add1)
  show ?thesis
  proof (cases "j < length H")
    case True
    with nthA[OF j] show ?thesis by (simp add: nth_append)
  next
    case False
    show ?thesis
    proof (cases "j < length H + z")
      case True
      with False have "j - length H < z" by arith
      with False True show ?thesis by (simp add: nth_append)
    next
      case F2: False
      with False j len have k: "j - length H - z < length Tl" "j - z < 64" "\<not> j - z < length H"
        "j - z - length H = j - length H - z" "\<not> j - length H < z"
        by arith+
      from nthA[OF k(2)] k have "C ! (j - z) = Tl ! (j - length H - z)"
        by (simp add: nth_append)
      with False F2 k show ?thesis by (simp add: nth_append)
    qed
  qed
qed

lemma shift_low_le:
  fixes w w' :: size_t
  assumes "\<And>i. bit w' i \<longleftrightarrow> (m \<le> i \<and> bit w i) \<or> (i + z < m \<and> bit w (i + z))"
  shows "w' \<le> w"
proof -
  let ?x = "push_bit m (drop_bit m w)" and ?y = "drop_bit z (take_bit m w)"
  have "w' = ?x OR ?y"
    by (rule bit_eqI)
      (auto simp: assms bit_or_iff bit_push_bit_iff bit_drop_bit_eq bit_take_bit_iff
        simp flip: add.commute[of z])
  also have "\<dots> = ?x + ?y"
    by (rule disjunctive_add[symmetric])
      (auto simp: bit_push_bit_iff bit_drop_bit_eq bit_take_bit_iff)
  finally have w': "w' = ?x + ?y" .
  have w: "w = ?x + take_bit m w"
    by (simp add: bits_ident)
  have "unat ?y = drop_bit z (unat (take_bit m w))"
    by (rule unat_drop_bit_eq)
  also have "\<dots> \<le> unat (take_bit m w)"
    by (simp add: drop_bit_eq_div)
  finally have "unat ?y \<le> unat (take_bit m w)" .
  then have yz: "?y \<le> take_bit m w"
    by (simp add: word_le_nat_alt)
  have "?x = w AND NOT (mask m)"
    by (rule bit_eqI) (auto simp: bit_push_bit_iff bit_drop_bit_eq bit_and_iff bit_not_iff bit_mask_iff)
  then have "?x \<le> w"
    by (simp add: word_and_le2)
  then have "?x \<le> ?x + take_bit m w"
    using w by simp
  from word_plus_mono_right[OF yz this] w w' show ?thesis by simp
qed

lemma small_word_bits:
  fixes w :: size_t
  assumes "unat w < 8" "3 \<le> i"
  shows "\<not> bit w i"
proof -
  from assms(1) have "take_bit 3 (unat w) = unat w"
    by (intro take_bit_nat_eq_self) simp
  then have "unat (take_bit 3 w) = unat w"
    by (simp add: unsigned_take_bit_eq)
  then have "take_bit 3 w = w"
    by (simp add: word_unat_eq_iff)
  then have "bit w i = bit (take_bit 3 w) i" by simp
  with assms(2) show ?thesis
    by (simp add: bit_take_bit_iff)
qed

lemma static_cast_size_t: "static_cast size_t_type v = uint v"
proof -
  have "take_bit 64 (uint v) = uint (take_bit 64 v)"
    by (simp only: unsigned_take_bit_eq)
  also have "take_bit 64 v = v"
    using take_bit_length_eq[of v] by simp
  finally show ?thesis by simp
qed

lemma crossing_count:
  assumes eq: "data_bits bo 64 (word_of_int (int n) :: size_t) @ Rest = H @ Tl"
    and H: "length H < 64" and z: "length Tl + z \<le> 7"
  shows "nat (static_cast size_t_type
           (decode_word bo 64 False (List.take 64 (H @ replicate z False @ Tl @ W)))) \<le> n
         \<or> 7 \<le> n"
proof (cases "n < 7")
  case False
  then show ?thesis by simp
next
  case True
  define w :: size_t where "w = word_of_int (int n)"
  define C where "C = data_bits bo 64 w"
  define X where "X = H @ replicate z False @ Tl @ W"
  define w' where "w' = decode_word bo 64 False (List.take 64 X)"
  from True have un: "unat w = n"
    by (simp add: w_def unat_of_nat)
  have eq': "C @ Rest = H @ Tl" and lC: "length C = 64"
    using eq by (simp_all add: C_def w_def)
  from eq' lC have len: "64 \<le> length H + length Tl"
    by (metis length_append le_add1)
  then have lD: "length (List.take 64 X) = 64" by (simp add: X_def)
  have bw': "bit w' i \<longleftrightarrow> i < 64 \<and> X ! (if bo = MsbFirst then 63 - i else i)" for i
    using decode_word_bits[OF lD, of bo i] by (auto simp: w'_def)
  have nthX: "X ! j = (if j < length H then C ! j
      else if j < length H + z then False else C ! (j - z))" if "j < 64" for j
    unfolding X_def by (rule crossing_nth[OF eq' lC H z that])
  have nthC: "C ! k = bit w (if bo = MsbFirst then 63 - k else k)" if "k < 64" for k
    using that by (simp add: C_def nth_data_bits)
  have cast: "nat (static_cast size_t_type w') = unat w'"
    by (simp only: static_cast_size_t nat_uint_eq)
  have "w' \<le> w"
  proof (cases bo)
    case MsbFirst
    have "bit w' i \<longleftrightarrow> (64 - length H \<le> i \<and> bit w i)
        \<or> (i + z < 64 - length H \<and> bit w (i + z))" for i
    proof (cases "i < 64")
      case False
      then show ?thesis
        by (auto simp: bw' dest: bit_imp_le_length)
    next
      case i: True
      then have j: "63 - i < 64" by simp
      show ?thesis
      proof (cases "63 - i < length H")
        case True
        with i H have "64 - length H \<le> i" "63 - (63 - i) = i" "\<not> i + z < 64 - length H" by arith+
        with i True show ?thesis
          by (simp add: bw' MsbFirst nthX[OF j] nthC[OF j])
      next
        case F1: False
        with i H have n1: "\<not> 64 - length H \<le> i" by arith
        show ?thesis
        proof (cases "63 - i < length H + z")
          case True
          with i have "\<not> i + z < 64 - length H" by arith
          with i F1 True n1 show ?thesis
            by (simp add: bw' MsbFirst nthX[OF j])
        next
          case F2: False
          with i have k: "i + z < 64 - length H" "63 - (i + z) < 64" "63 - (63 - (i + z)) = i + z"
            "63 - i - z = 63 - (i + z)"
            by arith+
          from nthC[OF k(2)] k(3) MsbFirst have "C ! (63 - (i + z)) = bit w (i + z)"
            by simp
          with i F1 F2 n1 k show ?thesis
            by (simp add: bw' MsbFirst nthX[OF j])
        qed
      qed
    qed
    then show ?thesis by (rule shift_low_le)
  next
    case LsbFirst
    have small: "\<not> bit w i" if "3 \<le> i" for i
      using small_word_bits[of w i] un True that by simp
    have "w' = w"
    proof (rule bit_eqI)
      fix i
      show "bit w' i = bit w i"
      proof (cases "i < 64")
        case False
        then show ?thesis
          by (auto simp: bw' dest: bit_imp_le_length)
      next
        case i: True
        show ?thesis
        proof (cases "i < length H")
          case True
          with i show ?thesis
            by (simp add: bw' LsbFirst nthX[OF i] nthC[OF i])
        next
          case False
          with len z have "3 \<le> i" "3 \<le> i - z" "i - z < 64" using i by arith+
          with i False small[of i] small[of "i - z"] show ?thesis
            by (simp add: bw' LsbFirst nthX[OF i] nthC)
        qed
      qed
    qed
    then show ?thesis by simp
  qed
  then have "unat w' \<le> n"
    using un by (simp add: word_le_nat_alt)
  with cast show ?thesis by (simp add: w'_def X_def)
qed

lemma aligned_length: "aligned A X \<Longrightarrow> length A \<le> length X"
  by (auto simp: aligned_def)

lemma feeds_length: "feeds A X \<Longrightarrow> length A \<le> length X"
  by (auto simp: feeds_def dest: aligned_length)

lemma feeds_drop:
  assumes "feeds (E @ Y) X"
  shows "length E \<le> length X" and "feeds Y (drop (length E) X)"
proof -
  from feeds_length[OF assms] show le: "length E \<le> length X" by simp
  show "feeds Y (drop (length E) X)"
  proof (cases "aligned (E @ Y) X")
    case False
    with assms show ?thesis by (auto simp: feeds_def)
  next
    case True
    then obtain H Tl z W where A: "E @ Y = H @ Tl" and X: "X = H @ replicate z False @ Tl @ W"
      and z: "length Tl + z \<le> 7"
      by (auto simp: aligned_def)
    from A have lA: "length E + length Y = length H + length Tl"
      by (metis length_append)
    show ?thesis
    proof (cases "length E \<le> length H")
      case True
      from A have "drop (length E) (E @ Y) = drop (length E) (H @ Tl)" by simp
      with True have Y: "Y = drop (length E) H @ Tl" by simp
      from X True have "drop (length E) X = drop (length E) H @ replicate z False @ Tl @ W"
        by simp
      with Y z have "aligned Y (drop (length E) X)"
        unfolding aligned_def by blast
      then show ?thesis by (simp add: feeds_def)
    next
      case False
      with lA z X have "length Y < 64" "length Y \<le> length (drop (length E) X)"
        by simp_all
      then show ?thesis by (simp add: feeds_def)
    qed
  qed
qed

lemma count_roundtrip:
  assumes "n < 2 ^ 64"
  shows "nat (static_cast size_t_type
           (decode_word bo 64 False (data_bits bo 64 (word_of_int (int n) :: size_t)))) = n"
proof -
  have "decode_word bo 64 False (data_bits bo 64 (word_of_int (int n) :: size_t))
      = take_bit 64 (word_of_int (int n) :: size_t)"
    by (rule decode_word_data_bits) simp
  also have "\<dots> = word_of_int (int n)"
    using take_bit_length_eq[of "word_of_int (int n) :: size_t"] by simp
  finally have "nat (static_cast size_t_type
           (decode_word bo 64 False (data_bits bo 64 (word_of_int (int n) :: size_t))))
      = unat (word_of_int (int n) :: size_t)"
    by (simp only: static_cast_size_t nat_uint_eq)
  also from assms have "\<dots> = n"
    by (simp add: unat_of_nat)
  finally show ?thesis .
qed

text \<open>
  The decoder does not fail on the bits of an encoded value before which \<^verbatim>\<open>flush\<close> has
  inserted its zero bits: it reads the counts of the encoder as long as it reads full
  bytes, and a count that it reads across the inserted bits comes out so small that the
  bits left suffice.
\<close>

lemma scalar_feeds:
  assumes g: "bits_give bo T x n = Inr E" and f: "feeds (E @ Y) X"
  shows "\<exists>X'. (case bits_take bo T n X of Inl e \<Rightarrow> Inl e | Inr (y, r) \<Rightarrow> Inr r)
             = Inr X' \<and> feeds Y X'"
proof -
  from bits_give_length[OF g] feeds_drop[OF f]
  have "n \<le> length X" "feeds Y (drop n X)" by simp_all
  with bits_give_take[OF g this(1)] show ?thesis by simp
qed

lemma vector_feeds:
  assumes c: "bits_give bo size_t_type (int (length xs)) (bitsize size_t_type) = Inr C"
    and es: "enc_each bo El xs = Inr Es"
    and len: "length xs < 2 ^ 64"
    and f: "feeds (C @ Es @ Y) X"
    and IH: "\<And>X1. feeds (Es @ Y) X1 \<Longrightarrow>
               \<exists>X'. dec_each bo El (length xs) X1 = Inr X' \<and> feeds Y X'"
  shows "\<exists>X'. dec bo (Resizable El) X = Inr X' \<and> feeds Y X'"
proof -
  from c have C: "C = data_bits bo 64 (word_of_int (int (length xs)) :: size_t)"
    and lC: "length C = 64"
    by (auto simp: bits_give_def bitsize_def split: if_splits)
  from feeds_drop[OF f] lC have lX: "64 \<le> length X" and f1: "feeds (Es @ Y) (drop 64 X)"
    by simp_all
  define count where
    "count = nat (static_cast size_t_type (decode_word bo 64 False (List.take 64 X)))"
  from bits_give_take[OF c, of X] lX
  have t: "bits_take bo size_t_type (bitsize size_t_type) X
      = Inr (static_cast size_t_type (decode_word bo 64 False (List.take 64 X)), drop 64 X)"
    by (simp add: bitsize_def)
  have "\<exists>X'. dec_each bo El count (drop 64 X) = Inr X' \<and> feeds Y X'"
  proof -
    from f lC have al: "aligned (C @ Es @ Y) X"
      by (auto simp: feeds_def)
    then obtain H Tl z W where A: "C @ Es @ Y = H @ Tl"
      and X: "X = H @ replicate z False @ Tl @ W" and z: "length Tl + z \<le> 7"
      by (auto simp: aligned_def)
    show ?thesis
    proof (cases "64 \<le> length H")
      case True
      from A have "List.take 64 (C @ Es @ Y) = List.take 64 (H @ Tl)" by simp
      with True lC have "C = List.take 64 H" by simp
      with X True have "List.take 64 X = C" by simp
      with count_roundtrip[OF len, of bo] have "count = length xs"
        by (simp add: count_def C)
      with IH[OF f1] show ?thesis by simp
    next
      case False
      then have H: "length H < 64" by simp
      from A have "length C + (length Es + length Y) = length H + length Tl"
        by (metis length_append)
      with lC H z have small: "length Es + length Y < 64" "length Es \<le> 6" by simp_all
      from feeds_length[OF f1] have avail: "length Es + length Y \<le> length (drop 64 X)"
        by simp
      from crossing_count[OF A[unfolded C] H z, of W] X
      have "count \<le> length xs \<or> 7 \<le> length xs"
        by (simp add: count_def)
      moreover have "\<exists>x\<in>set xs. enc bo El x = Inr []" if "7 \<le> length xs"
      proof (rule ccontr)
        assume "\<not> (\<exists>x\<in>set xs. enc bo El x = Inr [])"
        then have "length xs \<le> length Es"
          by (intro enc_each_pigeonhole[OF es]) auto
        with that small(2) show False by simp
      qed
      ultimately have "count \<le> length xs \<or> (\<exists>x\<in>set xs. enc bo El x = Inr [])"
        by blast
      from dec_each_tail[OF es small(1) avail this] obtain X' where
        "dec_each bo El count (drop 64 X) = Inr X'" "length Y \<le> length X'"
        by blast
      moreover from small(1) have "length Y < 64" by simp
      ultimately show ?thesis by (auto simp: feeds_def)
    qed
  qed
  with t show ?thesis
    by (auto simp: count_def)
qed

lemma dec_feeds:
  "enc bo T v = Inr E \<Longrightarrow> sizes_fit T v \<Longrightarrow> feeds (E @ Y) X \<Longrightarrow>
     \<exists>X'. dec bo T X = Inr X' \<and> feeds Y X'"
  "enc_each bo El vs = Inr E \<Longrightarrow> sizes_fit_each El vs \<Longrightarrow> feeds (E @ Y) X \<Longrightarrow>
     \<exists>X'. dec_each bo El (length vs) X = Inr X' \<and> feeds Y X'"
  "enc_members bo cs Ts m = Inr E \<Longrightarrow> sizes_fit_members cs Ts m \<Longrightarrow> feeds (E @ Y) X \<Longrightarrow>
     \<exists>X'. dec_members bo cs Ts X = Inr X' \<and> feeds Y X'"
proof (induction bo T v and bo El vs and bo cs Ts m arbitrary: E Y X and E Y X and E Y X
    rule: enc_enc_each_enc_members.induct)
  case (1 bo T x)
  then have "bits_give bo T x (bitsize T) = Inr E" by simp
  from scalar_feeds[OF this "1.prems"(3)] show ?case by simp
next
  case (2 bo U x)
  then have "bits_give bo U x (bitsize U) = Inr E" by simp
  from scalar_feeds[OF this "2.prems"(3)] show ?case by simp
next
  case (3 bo n x)
  then have n: "n = 2 \<or> n = 4 \<or> n = 8"
    and g: "bits_give bo (Unsigned n) x (bitsize (Unsigned n)) = Inr E"
    by (simp_all split: if_splits)
  from scalar_feeds[OF g "3.prems"(3)] n show ?case by auto
next
  case (4 bo El xs)
  then obtain C Es where c: "bits_give bo size_t_type (int (length xs)) (bitsize size_t_type) = Inr C"
    and es: "enc_each bo El xs = Inr Es" and E: "E = C @ Es"
    by (auto split: sum.splits)
  from "4.prems"(2) have len: "length xs < 2 ^ 64" and ht: "sizes_fit_each El xs" by simp_all
  from "4.prems"(3) E have f: "feeds (C @ Es @ Y) X" by simp
  show ?case
    by (rule vector_feeds[OF c es len f]) (rule "4.IH"[OF c es ht])
next
  case (5 bo n El xs)
  then have l: "length xs = n" and e: "enc_each bo El xs = Inr E" and ht: "sizes_fit_each El xs"
    by (simp_all split: if_splits)
  from "5.IH"[OF l e ht "5.prems"(3)] l show ?case by auto
next
  case (6 bo L Ts m)
  then obtain offsets where mo: "member_offsets (class_of Ts) = Some offsets"
    and ne: "offsets \<noteq> []" and e: "enc_members bo offsets Ts m = Inr E"
    by (auto split: option.splits if_splits)
  from "6.prems"(2) mo have ht: "sizes_fit_members offsets Ts m" by simp
  from "6.IH"[OF mo ne e ht "6.prems"(3)] mo ne show ?case by simp
next
  case (7 bo T w x)
  then have w: "\<not> w > bitsize T" and g: "bits_give bo T x w = Inr E"
    by (simp_all split: if_splits)
  from scalar_feeds[OF g "7.prems"(3)] w show ?case by simp
next
  case (8 bo w)
  then have w: "\<not> w > bitsize size_t_type" and g: "bits_give bo size_t_type 0 w = Inr E"
    by (simp_all split: if_splits)
  from scalar_feeds[OF g "8.prems"(3)] w show ?case by simp
next
  case (10 bo El)
  then show ?case by simp
next
  case (11 bo El x xs)
  then obtain b bs where b: "enc bo El x = Inr b" and bs: "enc_each bo El xs = Inr bs"
    and E: "E = b @ bs"
    by (auto split: sum.splits)
  from "11.prems"(2) have ht: "sizes_fit El x" "sizes_fit_each El xs" by simp_all
  from "11.prems"(3) E have "feeds (b @ bs @ Y) X" by simp
  from "11.IH"(1)[OF b ht(1) this] obtain X1 where
    v': "dec bo El X = Inr X1" "feeds (bs @ Y) X1"
    by blast
  from "11.IH"(2)[OF b bs ht(2) v'(2)] obtain X' where
    "dec_each bo El (length xs) X1 = Inr X'" "feeds Y X'"
    by blast
  with v' show ?case by simp
next
  case (12 bo m)
  then show ?case by simp
next
  case (13 bo c cs T Ts m)
  then obtain x b bs where x: "map_of m c = Some x" and b: "enc bo T x = Inr b"
    and bs: "enc_members bo cs Ts m = Inr bs" and E: "E = b @ bs"
    by (auto split: sum.splits option.splits)
  from "13.prems"(2) x have ht: "sizes_fit T x" "sizes_fit_members cs Ts m" by simp_all
  from "13.prems"(3) E have "feeds (b @ bs @ Y) X" by simp
  from "13.IH"(1)[OF x b ht(1) this] obtain X1 where
    v': "dec bo T X = Inr X1" "feeds (bs @ Y) X1"
    by blast
  from "13.IH"(2)[OF x b bs ht(2) v'(2)] obtain X' where
    "dec_members bo cs Ts X1 = Inr X'" "feeds Y X'"
    by blast
  with v' show ?case by simp
qed simp_all

section \<open>Surplus input\<close>

lemma stream_init [simp]: "stream (DynamicSerializer_init byteOrder) = []"
  by (simp add: stream_def DynamicSerializer_init_def)

lemma ser_inv_init [simp]: "ser_inv (DynamicSerializer_init byteOrder)"
  by (simp add: ser_inv_def DynamicSerializer_init_def)

lemma ser_byteOrder_init [simp]: "ser_byteOrder (DynamicSerializer_init byteOrder) = byteOrder"
  by (simp add: DynamicSerializer_init_def)

lemma rbits_init [simp]:
  "rbits (BufferDeserializer_init data byteOrder) = concat (map (data_bits byteOrder 8) data)"
  by (simp add: rbits_def BufferDeserializer_init_def)

lemma des_inv_init [simp]: "des_inv (BufferDeserializer_init data byteOrder)"
  by (simp add: des_inv_def BufferDeserializer_init_def)

lemma des_byteOrder_init [simp]:
  "des_byteOrder (BufferDeserializer_init data byteOrder) = byteOrder"
  by (simp add: BufferDeserializer_init_def)

lemma more_input_init:
  "more_input sfx (BufferDeserializer_init data byteOrder)
     = BufferDeserializer_init (data @ sfx) byteOrder"
  by (simp add: more_input_def BufferDeserializer_init_def)

text \<open>
  The byte that \<^verbatim>\<open>flush\<close> emits, as the decoder will read it: zero bits, then the pending
  bits, then one more zero bit.
\<close>

lemma flushed_byte_bits:
  assumes "ser_inv s"
  shows "data_bits (ser_byteOrder s) 8 (ser_byte s)
     = replicate (7 - unat (ser_bitsSet s)) False
         @ pending (ser_byteOrder s) (unat (ser_bitsSet s)) (ser_byte s) @ [False]"
proof (rule nth_equalityI)
  from assms have k: "unat (ser_bitsSet s) \<le> 7"
    by (simp add: ser_inv_def)
  then show "length (data_bits (ser_byteOrder s) 8 (ser_byte s))
      = length (replicate (7 - unat (ser_bitsSet s)) False
         @ pending (ser_byteOrder s) (unat (ser_bitsSet s)) (ser_byte s) @ [False])"
    by simp
  fix i
  assume "i < length (data_bits (ser_byteOrder s) 8 (ser_byte s))"
  then have i: "i < 8" by simp
  define k where "k = unat (ser_bitsSet s)"
  define b where "b = ser_byte s"
  define bo where "bo = ser_byteOrder s"
  from assms have z: "\<And>j. bit b j \<Longrightarrow> occ bo k j"
    by (simp add: ser_inv_def k_def b_def bo_def)
  from k have k7: "k \<le> 7" by (simp add: k_def)
  have "data_bits bo 8 b ! i = (replicate (7 - k) False @ pending bo k b @ [False]) ! i"
  proof -
    consider (pad) "i < 7 - k" | (bits) "7 - k \<le> i" "i < 7" | (last) "i = 7"
      using i by arith
    then show ?thesis
    proof cases
      case pad
      then have "\<not> occ bo k (if bo = MsbFirst then 7 - i else i)"
        by (auto simp: occ_def)
      with z have "\<not> bit b (if bo = MsbFirst then 7 - i else i)" by blast
      with pad i show ?thesis
        by (auto simp: nth_data_bits nth_append split: if_splits)
    next
      case bits
      from bits k7 have j: "i - (7 - k) < k" by arith
      from bits k7 have e: "k - (i - (7 - k)) = 7 - i" "7 - k + (i - (7 - k)) = i" by arith+
      from bits k7 j have "(replicate (7 - k) False @ pending bo k b @ [False]) ! i
          = pending bo k b ! (i - (7 - k))"
        by (simp add: nth_append)
      also from nth_pending[OF j k7, of bo b] e
      have "\<dots> = bit b (if bo = MsbFirst then 7 - i else i)"
        by simp
      finally show ?thesis using i by (simp add: nth_data_bits)
    next
      case last
      then have "\<not> occ bo k (if bo = MsbFirst then 7 - i else i)"
        by (auto simp: occ_def)
      with z have "\<not> bit b (if bo = MsbFirst then 7 - i else i)" by blast
      with last k7 show ?thesis
        by (auto simp: nth_data_bits nth_append split: if_splits)
    qed
  qed
  then show "data_bits (ser_byteOrder s) 8 (ser_byte s) ! i
      = (replicate (7 - unat (ser_bitsSet s)) False
           @ pending (ser_byteOrder s) (unat (ser_bitsSet s)) (ser_byte s) @ [False]) ! i"
    by (simp add: k_def b_def bo_def)
qed

text \<open>
  The bits of the bytes that \<^verbatim>\<open>serialize\<close> returns, followed by those of any further
  bytes, are the bits of the value with the zero bits of \<^verbatim>\<open>flush\<close> inserted.
\<close>

lemma serialize_aligned:
  assumes p: "put T v (DynamicSerializer_init byteOrder) = Inr s"
  shows "\<exists>E. enc byteOrder T v = Inr E
     \<and> aligned E (concat (map (data_bits byteOrder 8) (bytes (flush s) @ sfx)))"
proof -
  have "emits (DynamicSerializer_init byteOrder) (put T v (DynamicSerializer_init byteOrder))
      (enc (ser_byteOrder (DynamicSerializer_init byteOrder)) T v)"
    by (rule put_emits(1)) simp
  with p obtain E where E: "enc byteOrder T v = Inr E" and st: "stream s = E" and inv: "ser_inv s"
    and bo: "ser_byteOrder s = byteOrder"
    by (cases "enc byteOrder T v") (auto simp: emits_def)
  define H where "H = concat (map (data_bits byteOrder 8) (bytes s))"
  define W where "W = concat (map (data_bits byteOrder 8) sfx)"
  define k where "k = unat (ser_bitsSet s)"
  from inv have k: "k \<le> 7" by (simp add: ser_inv_def k_def)
  from st bo have A: "E = H @ pending byteOrder k (ser_byte s)"
    by (simp add: stream_def H_def k_def)
  have "aligned E (concat (map (data_bits byteOrder 8) (bytes (flush s) @ sfx)))"
  proof (cases "ser_bitsSet s = 0")
    case True
    then have "k = 0" by (simp add: k_def)
    with A have "E = H @ []" by simp
    moreover from True have "concat (map (data_bits byteOrder 8) (bytes (flush s) @ sfx))
        = H @ replicate 0 False @ [] @ W"
      by (simp add: flush_def H_def W_def)
    ultimately show ?thesis
      unfolding aligned_def by (intro exI[of _ H] exI[of _ "[]"] exI[of _ 0] exI[of _ W]) simp
  next
    case False
    then have "bytes (flush s) = bytes s @ [ser_byte s]"
      by (simp add: flush_def putByte_def)
    with flushed_byte_bits[OF inv] bo
    have "concat (map (data_bits byteOrder 8) (bytes (flush s) @ sfx))
        = H @ replicate (7 - k) False @ pending byteOrder k (ser_byte s) @ (False # W)"
      by (simp add: H_def W_def k_def)
    moreover from k have "length (pending byteOrder k (ser_byte s)) + (7 - k) \<le> 7"
      by simp
    ultimately show ?thesis
      unfolding aligned_def using A by blast
  qed
  with E show ?thesis by blast
qed

text \<open>
  Decoding the bytes of a serialized value, followed by any bytes, succeeds, with the
  result of decoding the bytes of the value alone and leaving the further bytes unread.
\<close>

lemma get_serialized:
  assumes s: "serialize T v byteOrder = Inr bs" and fit: "sizes_fit T v" and d: "shaped T d"
  shows "\<exists>v' s'. get T d (BufferDeserializer_init bs byteOrder) = Inr (v', s') \<and>
           get T d (BufferDeserializer_init (bs @ sfx) byteOrder) = Inr (v', more_input sfx s')"
proof -
  from s obtain t where p: "put T v (DynamicSerializer_init byteOrder) = Inr t"
    and bs: "bs = bytes (flush t)"
    by (auto simp: serialize_def split: sum.splits)
  from serialize_aligned[OF p, of "[]"] bs obtain E where E: "enc byteOrder T v = Inr E"
    and al: "aligned E (concat (map (data_bits byteOrder 8) bs))"
    by auto
  from al have "feeds (E @ []) (concat (map (data_bits byteOrder 8) bs))"
    by (simp add: feeds_def)
  from dec_feeds(1)[OF E fit this] obtain X' where
    "dec byteOrder T (concat (map (data_bits byteOrder 8) bs)) = Inr X'"
    by blast
  with get_runs(1)[OF d des_inv_init, of bs byteOrder]
  obtain v' s' where g: "get T d (BufferDeserializer_init bs byteOrder) = Inr (v', s')"
    by (auto simp: runs_def)
  from get_more(1)[OF g, of sfx] g show ?thesis
    by (simp add: more_input_init)
qed

text \<open>
  C10. For every type, every value whose containers have sizes that fit \<^verbatim>\<open>size_t\<close>, each
  byte order and every byte sequence \<open>sfx\<close>: when \<^verbatim>\<open>serialize\<close> returns the bytes \<open>bs\<close>,
  deserializing \<open>bs\<close> followed by \<open>sfx\<close> succeeds and yields the value that deserializing
  \<open>bs\<close> alone yields, into a value-initialized object as into any destination \<open>d\<close> of the
  form of the type; and the decoder stops with all of \<open>sfx\<close> unread.
\<close>

theorem trailing_input_ignored:
  assumes "serialize T v byteOrder = Inr bs" and "sizes_fit T v" and "shaped T d"
  shows "(\<exists>v'. deserialize T bs byteOrder = Inr v' \<and>
               deserialize T (bs @ sfx) byteOrder = Inr v') \<and>
         (\<exists>v' s'. get T d (BufferDeserializer_init bs byteOrder) = Inr (v', s') \<and>
               get T d (BufferDeserializer_init (bs @ sfx) byteOrder)
                 = Inr (v', s'\<lparr>buffer := buffer s' @ sfx\<rparr>) \<and>
               deserialize_into T d bs byteOrder = Inr v' \<and>
               deserialize_into T d (bs @ sfx) byteOrder = Inr v')"
proof
  from get_serialized[OF assms(1,2) shaped_default, of sfx]
  show "\<exists>v'. deserialize T bs byteOrder = Inr v' \<and> deserialize T (bs @ sfx) byteOrder = Inr v'"
    by (auto simp: deserialize_def deserialize_into_def)
next
  from get_serialized[OF assms, of sfx]
  show "\<exists>v' s'. get T d (BufferDeserializer_init bs byteOrder) = Inr (v', s') \<and>
      get T d (BufferDeserializer_init (bs @ sfx) byteOrder)
        = Inr (v', s'\<lparr>buffer := buffer s' @ sfx\<rparr>) \<and>
      deserialize_into T d bs byteOrder = Inr v' \<and>
      deserialize_into T d (bs @ sfx) byteOrder = Inr v'"
    by (auto simp: deserialize_into_def more_input_def)
qed

theorem trailing_input_ignored_witness:
  "serialize (Bits (Unsigned 1) 3) (Scalar 5) MsbFirst = Inr [0x0A] \<and>
   sizes_fit (Bits (Unsigned 1) 3) (Scalar 5) \<and>
   shaped (Bits (Unsigned 1) 3) (Scalar 7) \<and>
   (\<exists>v'. deserialize (Bits (Unsigned 1) 3) [0x0A] MsbFirst = Inr v' \<and>
         deserialize (Bits (Unsigned 1) 3) ([0x0A] @ [0xFF]) MsbFirst = Inr v') \<and>
   (\<exists>v' s'. get (Bits (Unsigned 1) 3) (Scalar 7) (BufferDeserializer_init [0x0A] MsbFirst)
               = Inr (v', s') \<and>
         get (Bits (Unsigned 1) 3) (Scalar 7) (BufferDeserializer_init ([0x0A] @ [0xFF]) MsbFirst)
               = Inr (v', s'\<lparr>buffer := buffer s' @ [0xFF]\<rparr>) \<and>
         deserialize_into (Bits (Unsigned 1) 3) (Scalar 7) [0x0A] MsbFirst = Inr v' \<and>
         deserialize_into (Bits (Unsigned 1) 3) (Scalar 7) ([0x0A] @ [0xFF]) MsbFirst = Inr v')"
proof -
  have s: "serialize (Bits (Unsigned 1) 3) (Scalar 5) MsbFirst = Inr [0x0A]"
    by code_simp
  have f: "sizes_fit (Bits (Unsigned 1) 3) (Scalar 5)" "shaped (Bits (Unsigned 1) 3) (Scalar 7)"
    by simp_all
  from trailing_input_ignored[OF s f, of "[0xFF]"] s f show ?thesis
    by simp
qed

section \<open>Resizable containers\<close>

lemma put_each_chain:
  "put_each E xs s0 = Inr s' \<Longrightarrow>
   \<exists>ss. length ss = Suc (length xs) \<and> ss ! 0 = s0 \<and> ss ! length xs = s' \<and>
        (\<forall>i<length xs. put E (xs ! i) (ss ! i) = Inr (ss ! Suc i))"
proof (induction xs arbitrary: s0)
  case Nil
  then show ?case by (intro exI[of _ "[s0]"]) simp
next
  case (Cons x xs)
  then obtain s1 where p: "put E x s0 = Inr s1" and r: "put_each E xs s1 = Inr s'"
    by (auto split: sum.splits)
  from Cons.IH[OF r] obtain ss where ss: "length ss = Suc (length xs)" "ss ! 0 = s1"
    "ss ! length xs = s'" "\<forall>i<length xs. put E (xs ! i) (ss ! i) = Inr (ss ! Suc i)"
    by blast
  have "\<forall>i<length (x # xs). put E ((x # xs) ! i) ((s0 # ss) ! i) = Inr ((s0 # ss) ! Suc i)"
  proof (intro allI impI)
    fix i assume "i < length (x # xs)"
    with p ss show "put E ((x # xs) ! i) ((s0 # ss) ! i) = Inr ((s0 # ss) ! Suc i)"
      by (cases i) simp_all
  qed
  with ss show ?case
    by (intro exI[of _ "s0 # ss"]) simp
qed

lemma get_each_chain:
  "get_each E ds s0 = Inr (ys, s') \<Longrightarrow>
   length ys = length ds \<and>
   (\<exists>ss. length ss = Suc (length ds) \<and> ss ! 0 = s0 \<and> ss ! length ds = s' \<and>
        (\<forall>i<length ds. get E (ds ! i) (ss ! i) = Inr (ys ! i, ss ! Suc i)))"
proof (induction ds arbitrary: s0 ys)
  case Nil
  then show ?case by (auto intro: exI[of _ "[s0]"])
next
  case (Cons x xs)
  then obtain y s1 zs where p: "get E x s0 = Inr (y, s1)"
    and r: "get_each E xs s1 = Inr (zs, s')" and ys: "ys = y # zs"
    by (auto split: sum.splits)
  from Cons.IH[OF r] obtain ss where l: "length zs = length xs"
    and ss: "length ss = Suc (length xs)" "ss ! 0 = s1"
    "ss ! length xs = s'" "\<forall>i<length xs. get E (xs ! i) (ss ! i) = Inr (zs ! i, ss ! Suc i)"
    by blast
  have "\<forall>i<length (x # xs).
      get E ((x # xs) ! i) ((s0 # ss) ! i) = Inr ((y # zs) ! i, (s0 # ss) ! Suc i)"
  proof (intro allI impI)
    fix i assume "i < length (x # xs)"
    with p ss show "get E ((x # xs) ! i) ((s0 # ss) ! i) = Inr ((y # zs) ! i, (s0 # ss) ! Suc i)"
      by (cases i) simp_all
  qed
  with ss l ys show ?case
    by (intro conjI exI[of _ "s0 # ss"]) simp_all
qed

lemma nth_resize:
  "i < n \<Longrightarrow> resize E xs n ! i = (if i < length xs then xs ! i else default_val E)"
  by (auto simp: resize_def nth_append)

text \<open>
  C7. Encoding a container with the elements \<open>xs\<close> first gives the element count as a
  64-bit \<^verbatim>\<open>size_t\<close>, which appends the 64 bits of the count to the stream, and then puts
  the elements one after the other, each with the policy of the element type, every one
  from the state its predecessor left. Decoding first takes a 64-bit \<^verbatim>\<open>size_t\<close>, resizes
  the destination to exactly that count (keeping the elements it had, appending
  value-initialized ones), and then decodes the elements one after the other, each into
  the element of the resized destination at its position. For a vector of the three
  bytes 1, 2, 3 the encoding is the count 3 in eight bytes followed by the three bytes,
  and decoding it regrows an empty vector to these three elements.
\<close>

theorem resizable_container_policy:
  "(ser_inv s \<and> put (Resizable E) (Elems xs) s = Inr s' \<longrightarrow>
      (\<exists>ss. length ss = Suc (length xs) \<and>
            give size_t_type (int (length xs)) (bitsize size_t_type) s = Inr (ss ! 0) \<and>
            stream (ss ! 0)
              = stream s @ data_bits (ser_byteOrder s) 64 (word_of_nat (length xs) :: size_t) \<and>
            (\<forall>i<length xs. put E (xs ! i) (ss ! i) = Inr (ss ! Suc i)) \<and>
            ss ! length xs = s')) \<and>
   (get (Resizable E) (Elems ds) d = Inr (v, d') \<longrightarrow>
      (\<exists>count ys ss. length ss = Suc (nat count) \<and>
            takeT size_t_type (bitsize size_t_type) d = Inr (count, ss ! 0) \<and>
            length (resize E ds (nat count)) = nat count \<and>
            (\<forall>i<nat count.
                resize E ds (nat count) ! i = (if i < length ds then ds ! i else default_val E) \<and>
                get E (resize E ds (nat count) ! i) (ss ! i) = Inr (ys ! i, ss ! Suc i)) \<and>
            length ys = nat count \<and> v = Elems ys \<and> ss ! nat count = d')) \<and>
   serialize (Resizable (Integral (Unsigned 1))) (Elems [Scalar 1, Scalar 2, Scalar 3]) MsbFirst
     = Inr [0, 0, 0, 0, 0, 0, 0, 3, 1, 2, 3] \<and>
   deserialize (Resizable (Integral (Unsigned 1))) [0, 0, 0, 0, 0, 0, 0, 3, 1, 2, 3] MsbFirst
     = Inr (Elems [Scalar 1, Scalar 2, Scalar 3])"
proof (intro conjI impI)
  assume a: "ser_inv s \<and> put (Resizable E) (Elems xs) s = Inr s'"
  then obtain s0 where g: "give size_t_type (int (length xs)) (bitsize size_t_type) s = Inr s0"
    and p: "put_each E xs s0 = Inr s'"
    by (auto split: sum.splits)
  from a give_stream(1)[OF _ g]
  have st: "stream s0
      = stream s @ data_bits (ser_byteOrder s) 64 (word_of_nat (length xs) :: size_t)"
    by (simp add: bitsize_def)
  from put_each_chain[OF p] obtain ss where "length ss = Suc (length xs)" "ss ! 0 = s0"
    "ss ! length xs = s'" "\<forall>i<length xs. put E (xs ! i) (ss ! i) = Inr (ss ! Suc i)"
    by blast
  with g st show "\<exists>ss. length ss = Suc (length xs) \<and>
      give size_t_type (int (length xs)) (bitsize size_t_type) s = Inr (ss ! 0) \<and>
      stream (ss ! 0)
        = stream s @ data_bits (ser_byteOrder s) 64 (word_of_nat (length xs) :: size_t) \<and>
      (\<forall>i<length xs. put E (xs ! i) (ss ! i) = Inr (ss ! Suc i)) \<and>
      ss ! length xs = s'"
    by (intro exI[of _ ss]) simp
next
  assume "get (Resizable E) (Elems ds) d = Inr (v, d')"
  then obtain count s1 ys where t: "takeT size_t_type (bitsize size_t_type) d = Inr (count, s1)"
    and g: "get_each E (resize E ds (nat count)) s1 = Inr (ys, d')" and v: "v = Elems ys"
    by (auto split: sum.splits)
  from get_each_chain[OF g] obtain ss where l: "length ys = nat count"
    and ss: "length ss = Suc (nat count)" "ss ! 0 = s1" "ss ! nat count = d'"
    "\<forall>i<nat count. get E (resize E ds (nat count) ! i) (ss ! i) = Inr (ys ! i, ss ! Suc i)"
    by auto
  from t l ss v show "\<exists>count ys ss. length ss = Suc (nat count) \<and>
      takeT size_t_type (bitsize size_t_type) d = Inr (count, ss ! 0) \<and>
      length (resize E ds (nat count)) = nat count \<and>
      (\<forall>i<nat count.
          resize E ds (nat count) ! i = (if i < length ds then ds ! i else default_val E) \<and>
          get E (resize E ds (nat count) ! i) (ss ! i) = Inr (ys ! i, ss ! Suc i)) \<and>
      length ys = nat count \<and> v = Elems ys \<and> ss ! nat count = d'"
    by (intro exI[of _ count] exI[of _ ys] exI[of _ ss]) (simp add: nth_resize)
next
  show "serialize (Resizable (Integral (Unsigned 1))) (Elems [Scalar 1, Scalar 2, Scalar 3]) MsbFirst
      = Inr [0, 0, 0, 0, 0, 0, 0, 3, 1, 2, 3]"
    by code_simp
next
  show "deserialize (Resizable (Integral (Unsigned 1))) [0, 0, 0, 0, 0, 0, 0, 3, 1, 2, 3] MsbFirst
      = Inr (Elems [Scalar 1, Scalar 2, Scalar 3])"
    by code_simp
qed

theorem resizable_container_policy_witness:
  "ser_inv (DynamicSerializer_init LsbFirst) \<and>
   put (Resizable (Integral (Unsigned 1))) (Elems [Scalar 1, Scalar 2, Scalar 3])
       (DynamicSerializer_init LsbFirst)
     = Inr \<lparr>ser_byteOrder = LsbFirst, ser_byte = 0, ser_bitsSet = 0,
            bytes = [3, 0, 0, 0, 0, 0, 0, 0, 1, 2, 3]\<rparr> \<and>
   (\<exists>ss. length ss = Suc (length [Scalar 1, Scalar 2, Scalar 3]) \<and>
         give size_t_type (int (length [Scalar 1, Scalar 2, Scalar 3])) (bitsize size_t_type)
             (DynamicSerializer_init LsbFirst) = Inr (ss ! 0) \<and>
         stream (ss ! 0)
           = stream (DynamicSerializer_init LsbFirst)
               @ data_bits (ser_byteOrder (DynamicSerializer_init LsbFirst)) 64
                   (word_of_nat (length [Scalar 1, Scalar 2, Scalar 3]) :: size_t) \<and>
         (\<forall>i<length [Scalar 1, Scalar 2, Scalar 3].
             put (Integral (Unsigned 1)) ([Scalar 1, Scalar 2, Scalar 3] ! i) (ss ! i)
               = Inr (ss ! Suc i)) \<and>
         ss ! length [Scalar 1, Scalar 2, Scalar 3]
           = \<lparr>ser_byteOrder = LsbFirst, ser_byte = 0, ser_bitsSet = 0,
               bytes = [3, 0, 0, 0, 0, 0, 0, 0, 1, 2, 3]\<rparr>) \<and>
   get (Resizable (Integral (Unsigned 1))) (Elems [Scalar 9, Scalar 9, Scalar 9, Scalar 9])
       (BufferDeserializer_init [3, 0, 0, 0, 0, 0, 0, 0, 1, 2, 3] LsbFirst)
     = Inr (Elems [Scalar 1, Scalar 2, Scalar 3],
            \<lparr>des_byteOrder = LsbFirst, des_byte = 0, des_bitsLeft = 0, buffer = []\<rparr>) \<and>
   (\<exists>count ys ss. length ss = Suc (nat count) \<and>
         takeT size_t_type (bitsize size_t_type)
             (BufferDeserializer_init [3, 0, 0, 0, 0, 0, 0, 0, 1, 2, 3] LsbFirst)
           = Inr (count, ss ! 0) \<and>
         length (resize (Integral (Unsigned 1)) [Scalar 9, Scalar 9, Scalar 9, Scalar 9] (nat count))
           = nat count \<and>
         (\<forall>i<nat count.
             resize (Integral (Unsigned 1)) [Scalar 9, Scalar 9, Scalar 9, Scalar 9] (nat count) ! i
               = (if i < length [Scalar 9, Scalar 9, Scalar 9, Scalar 9]
                  then [Scalar 9, Scalar 9, Scalar 9, Scalar 9] ! i
                  else default_val (Integral (Unsigned 1))) \<and>
             get (Integral (Unsigned 1))
                 (resize (Integral (Unsigned 1)) [Scalar 9, Scalar 9, Scalar 9, Scalar 9] (nat count) ! i)
                 (ss ! i)
               = Inr (ys ! i, ss ! Suc i)) \<and>
         length ys = nat count \<and> Elems [Scalar 1, Scalar 2, Scalar 3] = Elems ys \<and>
         ss ! nat count
           = \<lparr>des_byteOrder = LsbFirst, des_byte = 0, des_bitsLeft = 0, buffer = []\<rparr>)"
proof -
  let ?E = "Integral (Unsigned 1)"
  let ?xs = "[Scalar 1, Scalar 2, Scalar 3]"
  let ?ds = "[Scalar 9, Scalar 9, Scalar 9, Scalar 9]"
  let ?s = "DynamicSerializer_init LsbFirst"
  let ?s' = "\<lparr>ser_byteOrder = LsbFirst, ser_byte = 0, ser_bitsSet = 0,
               bytes = [3, 0, 0, 0, 0, 0, 0, 0, 1, 2, 3]\<rparr>"
  let ?d = "BufferDeserializer_init [3, 0, 0, 0, 0, 0, 0, 0, 1, 2, 3] LsbFirst"
  let ?d' = "\<lparr>des_byteOrder = LsbFirst, des_byte = 0, des_bitsLeft = 0, buffer = []\<rparr>"
  have i: "ser_inv ?s"
    by (simp add: ser_inv_def DynamicSerializer_init_def)
  have p: "put (Resizable ?E) (Elems ?xs) ?s = Inr ?s'"
    by code_simp
  have g: "get (Resizable ?E) (Elems ?ds) ?d = Inr (Elems ?xs, ?d')"
    by code_simp
  note t = resizable_container_policy[where s="?s" and E="?E" and xs="?xs" and s'="?s'"
      and ds="?ds" and d="?d" and v="Elems ?xs" and d'="?d'"]
  from t i p have e: "\<exists>ss. length ss = Suc (length ?xs) \<and>
      give size_t_type (int (length ?xs)) (bitsize size_t_type) ?s = Inr (ss ! 0) \<and>
      stream (ss ! 0)
        = stream ?s @ data_bits (ser_byteOrder ?s) 64 (word_of_nat (length ?xs) :: size_t) \<and>
      (\<forall>i<length ?xs. put ?E (?xs ! i) (ss ! i) = Inr (ss ! Suc i)) \<and>
      ss ! length ?xs = ?s'"
    by blast
  from t g have f: "\<exists>count ys ss. length ss = Suc (nat count) \<and>
      takeT size_t_type (bitsize size_t_type) ?d = Inr (count, ss ! 0) \<and>
      length (resize ?E ?ds (nat count)) = nat count \<and>
      (\<forall>i<nat count.
          resize ?E ?ds (nat count) ! i = (if i < length ?ds then ?ds ! i else default_val ?E) \<and>
          get ?E (resize ?E ?ds (nat count) ! i) (ss ! i) = Inr (ys ! i, ss ! Suc i)) \<and>
      length ys = nat count \<and> Elems ?xs = Elems ys \<and> ss ! nat count = ?d'"
    by blast
  from i p e g f show ?thesis
    by (intro conjI)
qed

end
